theory Spec2Isabelle
  imports Main "HOL-Library.AList"
begin

section \<open>Data exchanged with the two directory clients\<close>

text \<open>
  The reconciler of \<^verbatim>\<open>internal/sync.go\<close> talks to a Google directory client and to an
  AWS SSO (SCIM) client. A Go \<^verbatim>\<open>error\<close> value is an opaque message.
\<close>

datatype error = Error string

text \<open>
  The Google records, with the fields the reconciler reads: \<^verbatim>\<open>u.PrimaryEmail\<close>,
  \<^verbatim>\<open>u.Name.GivenName\<close>, \<^verbatim>\<open>u.Name.FamilyName\<close> (the nested name is flattened),
  \<^verbatim>\<open>g.Name\<close> and \<^verbatim>\<open>m.Email\<close>. A Google group has an identifier of its own next to its
  name, so two source groups may share a name and differ in their members; the reconciler
  never reads the identifier, it hands the whole group to \<^verbatim>\<open>GetGroupMembers\<close>. List elements
  are pointers in Go; they are taken to be non-nil, as a directory listing delivers them.
\<close>

record google_User =
  PrimaryEmail :: string
  GivenName :: string
  FamilyName :: string

record google_Group =
  GroupId :: string
  Name :: string

record google_Member =
  Email :: string

text \<open>
  Modelled from the spec: the declarations of \<^verbatim>\<open>aws.User\<close>, \<^verbatim>\<open>aws.Group\<close>,
  \<^verbatim>\<open>aws.NewUser\<close> and \<^verbatim>\<open>aws.NewGroup\<close> are not part of the source file. The reconciler
  reads \<^verbatim>\<open>Username\<close> of a user and \<^verbatim>\<open>DisplayName\<close> of a group; the spec (sections 3 and 6)
  says that a principal is created from given name, family name and primary email, that
  the email and the target username are both the correlation key, and that a group is
  identified by its display name. A new user therefore carries the three attributes and
  takes the primary email as its username.
\<close>

record aws_User =
  Username :: string
  UserEmail :: string
  UserGivenName :: string
  UserFamilyName :: string

record aws_Group =
  DisplayName :: string

definition NewUser :: "string \<Rightarrow> string \<Rightarrow> string \<Rightarrow> aws_User" where
  "NewUser firstName lastName email =
     \<lparr>Username = email, UserEmail = email,
      UserGivenName = firstName, UserFamilyName = lastName\<rparr>"

definition NewGroup :: "string \<Rightarrow> aws_Group" where
  "NewGroup name = \<lparr>DisplayName = name\<rparr>"

section \<open>The client interfaces\<close>

text \<open>
  Every client call may read and change the world outside the program, of type \<open>'w\<close>:
  a call takes the world and returns its Go results with the new world. A result
  \<^verbatim>\<open>([]T, error)\<close> or \<^verbatim>\<open>(bool, error)\<close> is a sum (the value is only read when the error is
  nil, and a nil slice ranges like an empty one). A result \<^verbatim>\<open>(*T, error)\<close> is a pair of
  options, since the reconciler tests or dereferences the pointer on its own.
\<close>

record 'w google_Client =
  GetDeletedUsers :: "'w \<Rightarrow> (error + google_User list) \<times> 'w"
  GetUsers :: "'w \<Rightarrow> (error + google_User list) \<times> 'w"
  GetGoogleGroups :: "'w \<Rightarrow> (error + google_Group list) \<times> 'w"
  GetGroupMembers :: "google_Group \<Rightarrow> 'w \<Rightarrow> (error + google_Member list) \<times> 'w"

record 'w aws_Client =
  FindUserByEmail :: "string \<Rightarrow> 'w \<Rightarrow> (aws_User option \<times> error option) \<times> 'w"
  DeleteUser :: "aws_User \<Rightarrow> 'w \<Rightarrow> error option \<times> 'w"
  CreateUser :: "aws_User \<Rightarrow> 'w \<Rightarrow> (aws_User option \<times> error option) \<times> 'w"
  GetGroups :: "'w \<Rightarrow> ((string \<times> aws_Group) list option \<times> error option) \<times> 'w"
  CreateGroup :: "aws_Group \<Rightarrow> 'w \<Rightarrow> (aws_Group option \<times> error option) \<times> 'w"
  IsUserInGroup :: "aws_User \<Rightarrow> aws_Group \<Rightarrow> 'w \<Rightarrow> (error + bool) \<times> 'w"
  AddUserToGroup :: "aws_User \<Rightarrow> aws_Group \<Rightarrow> 'w \<Rightarrow> error option \<times> 'w"
  RemoveUserFromGroup :: "aws_User \<Rightarrow> aws_Group \<Rightarrow> 'w \<Rightarrow> error option \<times> 'w"
  DeleteGroup :: "aws_Group \<Rightarrow> 'w \<Rightarrow> error option \<times> 'w"

text \<open>
  The reconciler object. The Go map \<^verbatim>\<open>users\<close> is an association list with one entry per
  key: \<^verbatim>\<open>m[k] = v\<close> is \<^const>\<open>AList.update\<close> (replace in place, or append), \<^verbatim>\<open>m[k]\<close> is
  \<^const>\<open>map_of\<close>, and \<^verbatim>\<open>range m\<close> visits the entries in list order. Go leaves the order of
  \<^verbatim>\<open>range\<close> over a map open; the theorems below about \<^verbatim>\<open>SyncGroups\<close> hold for every list
  that represents the table, hence for every order.
\<close>

record 'w syncGSuite =
  aws :: "'w aws_Client"
  google :: "'w google_Client"
  users :: "(string \<times> aws_User) list"

definition New :: "'w aws_Client \<Rightarrow> 'w google_Client \<Rightarrow> 'w syncGSuite" where
  "New a g = \<lparr>aws = a, google = g, users = []\<rparr>"

text \<open>
  How a Go function leaves: it returns its \<^verbatim>\<open>error\<close> result (nil is \<open>None\<close>), or it
  panics on a nil pointer. A loop yields \<open>None\<close> when it runs to its end and \<open>Some r\<close>
  when its body leaves the function with \<open>r\<close>.
\<close>

datatype result = Return "error option" | Panic

section \<open>SyncUsers\<close>

text \<open>Lines 62 to 75: the loop over the deleted users.\<close>

fun SyncUsers_deleted ::
  "'w syncGSuite \<Rightarrow> google_User list \<Rightarrow> 'w \<Rightarrow> result option \<times> 'w" where
  "SyncUsers_deleted s [] w = (None, w)"
| "SyncUsers_deleted s (u # deletedUsers) w =
     (case FindUserByEmail (aws s) (PrimaryEmail u) w of
        ((None, _), w1) \<Rightarrow> SyncUsers_deleted s deletedUsers w1
      | ((Some uu, _), w1) \<Rightarrow>
          (case DeleteUser (aws s) uu w1 of
             (Some err, w2) \<Rightarrow> (Some (Return (Some err)), w2)
           | (None, w2) \<Rightarrow> SyncUsers_deleted s deletedUsers w2))"

text \<open>Lines 83 to 106: the loop over the active users, which fills \<^verbatim>\<open>s.users\<close>.\<close>

fun SyncUsers_active ::
  "'w syncGSuite \<Rightarrow> google_User list \<Rightarrow> 'w \<Rightarrow> result option \<times> 'w syncGSuite \<times> 'w" where
  "SyncUsers_active s [] w = (None, s, w)"
| "SyncUsers_active s (u # googleUsers) w =
     (case FindUserByEmail (aws s) (PrimaryEmail u) w of
        ((Some uu, _), w1) \<Rightarrow>
          SyncUsers_active (s\<lparr>users := AList.update (Username uu) uu (users s)\<rparr>) googleUsers w1
      | ((None, _), w1) \<Rightarrow>
          (case CreateUser (aws s)
                  (NewUser (GivenName u) (FamilyName u) (PrimaryEmail u)) w1 of
             ((_, Some err), w2) \<Rightarrow> (Some (Return (Some err)), s, w2)
           | ((None, None), w2) \<Rightarrow> (Some Panic, s, w2)
           | ((Some uu, None), w2) \<Rightarrow>
               SyncUsers_active (s\<lparr>users := AList.update (Username uu) uu (users s)\<rparr>)
                 googleUsers w2))"

definition SyncUsers :: "'w syncGSuite \<Rightarrow> 'w \<Rightarrow> result \<times> 'w syncGSuite \<times> 'w" where
  "SyncUsers s w =
     (case GetDeletedUsers (google s) w of
        (Inl err, w1) \<Rightarrow> (Return (Some err), s, w1)
      | (Inr deletedUsers, w1) \<Rightarrow>
          (case SyncUsers_deleted s deletedUsers w1 of
             (Some r, w2) \<Rightarrow> (r, s, w2)
           | (None, w2) \<Rightarrow>
               (case GetUsers (google s) w2 of
                  (Inl err, w3) \<Rightarrow> (Return (Some err), s, w3)
                | (Inr googleUsers, w3) \<Rightarrow>
                    (case SyncUsers_active s googleUsers w3 of
                       (Some r, s', w4) \<Rightarrow> (r, s', w4)
                     | (None, s', w4) \<Rightarrow> (Return None, s', w4)))))"

section \<open>SyncGroups\<close>

text \<open>Lines 155 to 163: the source members whose email is a key of \<^verbatim>\<open>s.users\<close>.\<close>

fun memberList_of ::
  "(string \<times> aws_User) list \<Rightarrow> google_Member list \<Rightarrow> (string \<times> google_Member) list \<Rightarrow>
   (string \<times> google_Member) list" where
  "memberList_of us [] memberList = memberList"
| "memberList_of us (m # groupMembers) memberList =
     (case map_of us (Email m) of
        Some _ \<Rightarrow> memberList_of us groupMembers (AList.update (Email m) m memberList)
      | None \<Rightarrow> memberList_of us groupMembers memberList)"

text \<open>Lines 165 to 189: every user of the table against one target group.\<close>

fun SyncGroups_users ::
  "'w syncGSuite \<Rightarrow> aws_Group \<Rightarrow> (string \<times> google_Member) list \<Rightarrow>
   (string \<times> aws_User) list \<Rightarrow> 'w \<Rightarrow> result option \<times> 'w" where
  "SyncGroups_users s grp memberList [] w = (None, w)"
| "SyncGroups_users s grp memberList ((k, u) # rest) w =
     (case IsUserInGroup (aws s) u grp w of
        (Inl err, w1) \<Rightarrow> (Some (Return (Some err)), w1)
      | (Inr b, w1) \<Rightarrow>
          (case map_of memberList (Username u) of
             Some _ \<Rightarrow>
               (if \<not> b then
                  (case AddUserToGroup (aws s) u grp w1 of
                     (Some err, w2) \<Rightarrow> (Some (Return (Some err)), w2)
                   | (None, w2) \<Rightarrow> SyncGroups_users s grp memberList rest w2)
                else SyncGroups_users s grp memberList rest w1)
           | None \<Rightarrow>
               (if b then
                  (case RemoveUserFromGroup (aws s) u grp w1 of
                     (Some err, w2) \<Rightarrow> (Some (Return (Some err)), w2)
                   | (None, w2) \<Rightarrow> SyncGroups_users s grp memberList rest w2)
                else SyncGroups_users s grp memberList rest w1)))"

text \<open>
  Lines 134 to 148: one source group is correlated by name with the snapshot
  \<open>awsGroups\<close> taken at line 114, or created in the target. The result is the updated
  \<^verbatim>\<open>correlatedGroups\<close> with the target group to work on, or the way the function leaves.
\<close>

definition SyncGroups_correlate ::
  "'w syncGSuite \<Rightarrow> (string \<times> aws_Group) list \<Rightarrow> google_Group \<Rightarrow>
   (string \<times> aws_Group) list \<Rightarrow> 'w \<Rightarrow>
   (result + (string \<times> aws_Group) list \<times> aws_Group) \<times> 'w" where
  "SyncGroups_correlate s awsGroups g correlatedGroups w =
     (case map_of awsGroups (Name g) of
        Some awsGroup \<Rightarrow>
          (Inr (AList.update (DisplayName awsGroup) awsGroup correlatedGroups, awsGroup), w)
      | None \<Rightarrow>
          (case CreateGroup (aws s) (NewGroup (Name g)) w of
             ((_, Some err), w1) \<Rightarrow> (Inl (Return (Some err)), w1)
           | ((None, None), w1) \<Rightarrow> (Inl Panic, w1)
           | ((Some newGroup, None), w1) \<Rightarrow>
               (Inr (AList.update (DisplayName newGroup) newGroup correlatedGroups, newGroup),
                w1)))"

text \<open>Lines 127 to 190: the loop over the source groups.\<close>

fun SyncGroups_groups ::
  "'w syncGSuite \<Rightarrow> (string \<times> aws_Group) list \<Rightarrow> google_Group list \<Rightarrow>
   (string \<times> aws_Group) list \<Rightarrow> 'w \<Rightarrow> result option \<times> (string \<times> aws_Group) list \<times> 'w" where
  "SyncGroups_groups s awsGroups [] correlatedGroups w = (None, correlatedGroups, w)"
| "SyncGroups_groups s awsGroups (g # googleGroups) correlatedGroups w =
     (case SyncGroups_correlate s awsGroups g correlatedGroups w of
        (Inl r, w1) \<Rightarrow> (Some r, correlatedGroups, w1)
      | (Inr (correlated, grp), w1) \<Rightarrow>
          (case GetGroupMembers (google s) g w1 of
             (Inl err, w2) \<Rightarrow> (Some (Return (Some err)), correlated, w2)
           | (Inr groupMembers, w2) \<Rightarrow>
               (case SyncGroups_users s grp (memberList_of (users s) groupMembers [])
                       (users s) w2 of
                  (Some r, w3) \<Rightarrow> (Some r, correlated, w3)
                | (None, w3) \<Rightarrow> SyncGroups_groups s awsGroups googleGroups correlated w3)))"

text \<open>Lines 193 to 201: the clean-up over the snapshot.\<close>

fun SyncGroups_cleanup ::
  "'w syncGSuite \<Rightarrow> (string \<times> aws_Group) list \<Rightarrow> (string \<times> aws_Group) list \<Rightarrow> 'w \<Rightarrow>
   result option \<times> 'w" where
  "SyncGroups_cleanup s correlatedGroups [] w = (None, w)"
| "SyncGroups_cleanup s correlatedGroups ((k, g) # rest) w =
     (case map_of correlatedGroups (DisplayName g) of
        Some _ \<Rightarrow> SyncGroups_cleanup s correlatedGroups rest w
      | None \<Rightarrow>
          (case DeleteGroup (aws s) g w of
             (Some err, w1) \<Rightarrow> (Some (Return (Some err)), w1)
           | (None, w1) \<Rightarrow> SyncGroups_cleanup s correlatedGroups rest w1))"

definition SyncGroups :: "'w syncGSuite \<Rightarrow> 'w \<Rightarrow> result \<times> 'w" where
  "SyncGroups s w =
     (case GetGroups (aws s) w of
        ((_, Some err), w1) \<Rightarrow> (Return (Some err), w1)
      | ((awsGroups, None), w1) \<Rightarrow>
          (case GetGoogleGroups (google s) w1 of
             (Inl err, w2) \<Rightarrow> (Return (Some err), w2)
           | (Inr googleGroups, w2) \<Rightarrow>
               (case awsGroups of
                  None \<Rightarrow> (Panic, w2)
                | Some groups \<Rightarrow>
                    (case SyncGroups_groups s groups googleGroups [] w2 of
                       (Some r, _, w3) \<Rightarrow> (r, w3)
                     | (None, correlatedGroups, w3) \<Rightarrow>
                         (case SyncGroups_cleanup s correlatedGroups groups w3 of
                            (Some r, w4) \<Rightarrow> (r, w4)
                          | (None, w4) \<Rightarrow> (Return None, w4))))))"

text \<open>
  Lines 236 to 247 of \<^verbatim>\<open>DoSync\<close>: a fresh reconciler runs \<^verbatim>\<open>SyncUsers\<close>, then
  \<^verbatim>\<open>SyncGroups\<close>. Reading the credentials and building the two clients (lines 209 to 234)
  lie outside the model: the clients are given.
\<close>

definition DoSync :: "'w aws_Client \<Rightarrow> 'w google_Client \<Rightarrow> 'w \<Rightarrow> result \<times> 'w" where
  "DoSync awsClient googleClient w =
     (case SyncUsers (New awsClient googleClient) w of
        (Return None, c, w1) \<Rightarrow> SyncGroups c w1
      | (r, c, w1) \<Rightarrow> (r, w1))"


section \<open>The two directories\<close>

text \<open>
  Modelled from the spec: the implementations of \<^verbatim>\<open>google.Client\<close> and \<^verbatim>\<open>aws.Client\<close> are
  not part of the source file. Section 6 of the spec lists what each port provides; the
  model below is a source directory that is only read and a target directory of users
  (identified by username), groups (identified by display name) and memberships.
  Every call may fail (sections 4 and 7): the world carries a schedule of faults, one entry
  consumed by each call, and a call whose entry is \<open>Some e\<close> fails with \<open>e\<close> and
  changes nothing. The world also records every call with its outcome.
\<close>

datatype call =
    CallGetDeletedUsers
  | CallGetUsers
  | CallGetGoogleGroups
  | CallGetGroupMembers google_Group
  | CallFindUserByEmail string
  | CallDeleteUser aws_User
  | CallCreateUser aws_User
  | CallGetGroups
  | CallCreateGroup aws_Group
  | CallIsUserInGroup aws_User aws_Group
  | CallAddUserToGroup aws_User aws_Group
  | CallRemoveUserFromGroup aws_User aws_Group
  | CallDeleteGroup aws_Group

record directory =
  sso_users :: "aws_User list"
  sso_groups :: "aws_Group list"
  sso_members :: "(string \<times> string) list"

record world =
  deleted_users :: "google_User list"
  google_users :: "google_User list"
  google_groups :: "google_Group list"
  group_members :: "google_Group \<Rightarrow> google_Member list"
  sso :: directory
  faults :: "error option list"
  trace :: "(call \<times> error option) list"

text \<open>What a call that succeeds does to the target directory.\<close>

fun effect :: "call \<Rightarrow> directory \<Rightarrow> directory" where
  "effect (CallDeleteUser u) d =
     d\<lparr>sso_users := filter (\<lambda>x. Username x \<noteq> Username u) (sso_users d),
       sso_members := filter (\<lambda>p. fst p \<noteq> Username u) (sso_members d)\<rparr>"
| "effect (CallCreateUser u) d = d\<lparr>sso_users := sso_users d @ [u]\<rparr>"
| "effect (CallCreateGroup g) d =
     (if g \<in> set (sso_groups d) then d else d\<lparr>sso_groups := sso_groups d @ [g]\<rparr>)"
| "effect (CallAddUserToGroup u g) d =
     (if (Username u, DisplayName g) \<in> set (sso_members d) then d
      else d\<lparr>sso_members := sso_members d @ [(Username u, DisplayName g)]\<rparr>)"
| "effect (CallRemoveUserFromGroup u g) d =
     d\<lparr>sso_members := removeAll (Username u, DisplayName g) (sso_members d)\<rparr>"
| "effect (CallDeleteGroup g) d =
     d\<lparr>sso_groups := filter (\<lambda>x. DisplayName x \<noteq> DisplayName g) (sso_groups d),
       sso_members := filter (\<lambda>p. snd p \<noteq> DisplayName g) (sso_members d)\<rparr>"
| "effect _ d = d"

text \<open>
  One call on a port: the scheduled fault if there is one, else the answer the directory
  gives; a call that succeeds takes effect. The call and its outcome are recorded.
\<close>

definition port :: "call \<Rightarrow> (directory \<Rightarrow> error + 'a) \<Rightarrow> world \<Rightarrow> (error + 'a) \<times> world" where
  "port c answer w =
     (case faults w of
        Some e # fs \<Rightarrow> (Inl e, w\<lparr>faults := fs, trace := trace w @ [(c, Some e)]\<rparr>)
      | _ \<Rightarrow>
          (case answer (sso w) of
             Inl e \<Rightarrow> (Inl e, w\<lparr>faults := tl (faults w), trace := trace w @ [(c, Some e)]\<rparr>)
           | Inr a \<Rightarrow>
               (Inr a, w\<lparr>sso := effect c (sso w), faults := tl (faults w),
                          trace := trace w @ [(c, None)]\<rparr>)))"

definition pointer_result :: "(error + 'a) \<times> world \<Rightarrow> ('a option \<times> error option) \<times> world" where
  "pointer_result r = (case r of (Inl e, w) \<Rightarrow> ((None, Some e), w) | (Inr a, w) \<Rightarrow> ((Some a, None), w))"

definition error_result :: "(error + unit) \<times> world \<Rightarrow> error option \<times> world" where
  "error_result r = (case r of (Inl e, w) \<Rightarrow> (Some e, w) | (Inr _, w) \<Rightarrow> (None, w))"

definition ErrUserNotFound :: error where
  "ErrUserNotFound = Error ''user not found''"

definition ErrConflict :: error where
  "ErrConflict = Error ''conflict''"

definition source_port :: "world google_Client" where
  "source_port =
     \<lparr>GetDeletedUsers = (\<lambda>w. port CallGetDeletedUsers (\<lambda>d. Inr (deleted_users w)) w),
      GetUsers = (\<lambda>w. port CallGetUsers (\<lambda>d. Inr (google_users w)) w),
      GetGoogleGroups = (\<lambda>w. port CallGetGoogleGroups (\<lambda>d. Inr (google_groups w)) w),
      GetGroupMembers = (\<lambda>g w. port (CallGetGroupMembers g) (\<lambda>d. Inr (group_members w g)) w)\<rparr>"

text \<open>
  The target port. A lookup answers with the first user that has the email, or with
  "not found". Usernames are unique in the target, so creating a user whose username is
  taken is refused. The listing of the groups is keyed by display name. Deleting,
  adding and removing are idempotent.
\<close>

definition target_port :: "world aws_Client" where
  "target_port =
     \<lparr>FindUserByEmail = (\<lambda>email w. pointer_result (port (CallFindUserByEmail email)
        (\<lambda>d. case find (\<lambda>x. UserEmail x = email) (sso_users d) of
                None \<Rightarrow> Inl ErrUserNotFound | Some u \<Rightarrow> Inr u) w)),
      DeleteUser = (\<lambda>u w. error_result (port (CallDeleteUser u) (\<lambda>d. Inr ()) w)),
      CreateUser = (\<lambda>u w. pointer_result (port (CallCreateUser u)
        (\<lambda>d. if Username u \<in> Username ` set (sso_users d) then Inl ErrConflict else Inr u) w)),
      GetGroups = (\<lambda>w. pointer_result (port CallGetGroups
        (\<lambda>d. Inr (map (\<lambda>g. (DisplayName g, g)) (remdups (sso_groups d)))) w)),
      CreateGroup = (\<lambda>g w. pointer_result (port (CallCreateGroup g) (\<lambda>d. Inr g) w)),
      IsUserInGroup = (\<lambda>u g w. port (CallIsUserInGroup u g)
        (\<lambda>d. Inr ((Username u, DisplayName g) \<in> set (sso_members d))) w),
      AddUserToGroup = (\<lambda>u g w. error_result (port (CallAddUserToGroup u g) (\<lambda>d. Inr ()) w)),
      RemoveUserFromGroup =
        (\<lambda>u g w. error_result (port (CallRemoveUserFromGroup u g) (\<lambda>d. Inr ()) w)),
      DeleteGroup = (\<lambda>g w. error_result (port (CallDeleteGroup g) (\<lambda>d. Inr ()) w))\<rparr>"

text \<open>The reconciler bound to the two ports, with a given correlation table.\<close>

definition reconciler :: "(string \<times> aws_User) list \<Rightarrow> world syncGSuite" where
  "reconciler us = \<lparr>aws = target_port, google = source_port, users = us\<rparr>"

text \<open>The client whose lookup never reports an error: the error of each lookup is dropped.\<close>

definition without_lookup_errors :: "'w syncGSuite \<Rightarrow> 'w syncGSuite" where
  "without_lookup_errors s =
     s\<lparr>aws := (aws s)\<lparr>FindUserByEmail :=
            (\<lambda>email w. case FindUserByEmail (aws s) email w of ((uu, _), w1) \<Rightarrow> ((uu, None), w1))\<rparr>\<rparr>"


section \<open>Notions used to state the properties\<close>

text \<open>
  What a run returns together with the table and the world it leaves behind (the
  clients of the reconciler are functions and are left out of the comparison).
\<close>

definition run_view :: "result \<times> 'w syncGSuite \<times> 'w \<Rightarrow> result \<times> (string \<times> aws_User) list \<times> 'w" where
  "run_view x = (case x of (r, s, w) \<Rightarrow> (r, users s, w))"


text \<open>
  A lookup is the only call whose error the reconciler does not return. A recorded call is
  fatal when it is not a lookup and it failed. Replaying a list of recorded calls applies
  the effects of those that succeeded. \<open>after w evs\<close> is the world once the calls \<open>evs\<close>
  have been made from \<open>w\<close>; \<open>next_fault\<close> is what the schedule holds for the next call.
\<close>

fun lookup_call :: "call \<Rightarrow> bool" where
  "lookup_call (CallFindUserByEmail _) = True"
| "lookup_call _ = False"

definition fatal :: "call \<times> error option \<Rightarrow> bool" where
  "fatal ev = (\<not> lookup_call (fst ev) \<and> snd ev \<noteq> None)"

fun replay :: "(call \<times> error option) list \<Rightarrow> directory \<Rightarrow> directory" where
  "replay [] d = d"
| "replay ((c, None) # evs) d = replay evs (effect c d)"
| "replay ((c, Some e) # evs) d = replay evs d"

definition after :: "world \<Rightarrow> (call \<times> error option) list \<Rightarrow> world" where
  "after w evs =
     w\<lparr>sso := replay evs (sso w), faults := drop (length evs) (faults w),
       trace := trace w @ evs\<rparr>"

fun run_shape :: "(call \<times> error option) list \<Rightarrow> result option \<Rightarrow> bool" where
  "run_shape [] r = (case r of Some (Return (Some e)) \<Rightarrow> False | _ \<Rightarrow> True)"
| "run_shape [ev] r =
     (case r of
        Some (Return (Some e)) \<Rightarrow> \<not> lookup_call (fst ev) \<and> snd ev = Some e
      | _ \<Rightarrow> \<not> fatal ev)"
| "run_shape (ev # ev' # evs) r = (\<not> fatal ev \<and> run_shape (ev' # evs) r)"

definition reaches :: "world \<Rightarrow> result option \<Rightarrow> world \<Rightarrow> bool" where
  "reaches w r w' = (\<exists>evs. w' = after w evs \<and> run_shape evs r)"

definition next_fault :: "world \<Rightarrow> error option" where
  "next_fault w = (case faults w of Some e # _ \<Rightarrow> Some e | _ \<Rightarrow> None)"


text \<open>
  A run from \<open>w\<close> to \<open>w'\<close> with result \<open>r\<close> stops at its first fatal call: the calls it
  added to the record contain a fatal one only in last place, the result is then the error
  of that call, and the target directory is the replay of the added calls.
\<close>

definition stops_at_first_error :: "world \<Rightarrow> result \<Rightarrow> world \<Rightarrow> bool" where
  "stops_at_first_error w r w' =
     (let evs = drop (length (trace w)) (trace w') in
      trace w' = trace w @ evs \<and> sso w' = replay evs (sso w) \<and>
      (\<forall>i<length evs. fatal (evs ! i) \<longrightarrow> Suc i = length evs \<and> r = Return (snd (evs ! i))))"

text \<open>Worlds and records for the concrete instances below.\<close>

definition alice :: google_User where
  "alice = \<lparr>PrimaryEmail = ''alice@x.com'', GivenName = ''Alice'', FamilyName = ''Lee''\<rparr>"

definition bob :: google_User where
  "bob = \<lparr>PrimaryEmail = ''bob@x.com'', GivenName = ''Bob'', FamilyName = ''Ray''\<rparr>"

definition sso_bob :: aws_User where
  "sso_bob = NewUser ''Bob'' ''Ray'' ''bob@x.com''"

definition sso_alice :: aws_User where
  "sso_alice = NewUser ''Alice'' ''Lee'' ''alice@x.com''"

definition world_create_fails :: world where
  "world_create_fails =
     \<lparr>deleted_users = [bob], google_users = [alice], google_groups = [\<lparr>GroupId = ''g1'', Name = ''Eng''\<rparr>],
      group_members = (\<lambda>g. [\<lparr>Email = ''alice@x.com''\<rparr>]),
      sso = \<lparr>sso_users = [sso_bob], sso_groups = [\<lparr>DisplayName = ''Temp''\<rparr>], sso_members = []\<rparr>,
      faults = [None, None, None, None, None, Some (Error ''boom'')], trace = []\<rparr>"

definition world_lookup_fails :: world where
  "world_lookup_fails =
     \<lparr>deleted_users = [], google_users = [alice], google_groups = [],
      group_members = (\<lambda>g. []),
      sso = \<lparr>sso_users = [sso_alice], sso_groups = [], sso_members = []\<rparr>,
      faults = [Some (Error ''timeout'')], trace = []\<rparr>"

text \<open>
  The world in which the loop over the deleted users starts, and the world in which the
  loop over the active users starts, in a run of \<^verbatim>\<open>SyncUsers\<close> from \<open>w\<close>.
\<close>

definition deleted_start :: "world \<Rightarrow> world" where
  "deleted_start w = snd (GetDeletedUsers source_port w)"

definition active_start :: "(string \<times> aws_User) list \<Rightarrow> world \<Rightarrow> world" where
  "active_start us w =
     snd (GetUsers source_port
       (snd (SyncUsers_deleted (reconciler us) (deleted_users w) (deleted_start w))))"


text \<open>A world whose schedule holds no fault.\<close>

definition no_faults :: "world \<Rightarrow> bool" where
  "no_faults w = (\<forall>f\<in>set (faults w). f = None)"


definition world_ok :: world where
  "world_ok =
     \<lparr>deleted_users = [bob], google_users = [alice], google_groups = [\<lparr>GroupId = ''g1'', Name = ''Eng''\<rparr>],
      group_members = (\<lambda>g. [\<lparr>Email = ''alice@x.com''\<rparr>]),
      sso = \<lparr>sso_users = [sso_bob], sso_groups = [\<lparr>DisplayName = ''Temp''\<rparr>], sso_members = []\<rparr>,
      faults = [], trace = []\<rparr>"

definition world_ok_synced :: world where
  "world_ok_synced =
     world_ok\<lparr>sso := \<lparr>sso_users = [sso_alice], sso_groups = [\<lparr>DisplayName = ''Temp''\<rparr>],
                       sso_members = []\<rparr>,
       trace := [(CallGetDeletedUsers, None), (CallFindUserByEmail ''bob@x.com'', None),
         (CallDeleteUser sso_bob, None), (CallGetUsers, None),
         (CallFindUserByEmail ''alice@x.com'', Some ErrUserNotFound),
         (CallCreateUser sso_alice, None)]\<rparr>"


definition world_mixed :: world where
  "world_mixed =
     \<lparr>deleted_users = [], google_users = [alice, bob], google_groups = [],
      group_members = (\<lambda>g. []),
      sso = \<lparr>sso_users = [sso_bob], sso_groups = [], sso_members = []\<rparr>,
      faults = [], trace = []\<rparr>"

definition world_mixed_synced :: world where
  "world_mixed_synced =
     world_mixed\<lparr>sso := \<lparr>sso_users = [sso_bob, sso_alice], sso_groups = [], sso_members = []\<rparr>,
       trace := [(CallGetDeletedUsers, None), (CallGetUsers, None),
         (CallFindUserByEmail ''alice@x.com'', Some ErrUserNotFound),
         (CallCreateUser sso_alice, None),
         (CallFindUserByEmail ''bob@x.com'', None)]\<rparr>"

definition world_readded :: world where
  "world_readded =
     \<lparr>deleted_users = [bob], google_users = [bob], google_groups = [],
      group_members = (\<lambda>g. []),
      sso = \<lparr>sso_users = [], sso_groups = [], sso_members = []\<rparr>,
      faults = [], trace = []\<rparr>"

definition world_swallowed :: world where
  "world_swallowed =
     \<lparr>deleted_users = [bob], google_users = [alice], google_groups = [],
      group_members = (\<lambda>g. []),
      sso = \<lparr>sso_users = [sso_bob], sso_groups = [], sso_members = []\<rparr>,
      faults = [None, Some (Error ''timeout'')], trace = []\<rparr>"

definition sso_bobby :: aws_User where
  "sso_bobby = \<lparr>Username = ''bobby'', UserEmail = ''bob@x.com'',
            UserGivenName = ''Bob'', UserFamilyName = ''Ray''\<rparr>"

definition world_shared_email :: world where
  "world_shared_email =
     \<lparr>deleted_users = [bob], google_users = [], google_groups = [],
      group_members = (\<lambda>g. []),
      sso = \<lparr>sso_users = [sso_bob, sso_bobby], sso_groups = [], sso_members = []\<rparr>,
      faults = [], trace = []\<rparr>"

definition sso_al :: aws_User where
  "sso_al = \<lparr>Username = ''al'', UserEmail = ''alice@x.com'',
            UserGivenName = ''Alice'', UserFamilyName = ''Lee''\<rparr>"

definition world_shadow :: world where
  "world_shadow =
     \<lparr>deleted_users = [], google_users = [alice], google_groups = [],
      group_members = (\<lambda>g. []),
      sso = \<lparr>sso_users = [sso_al], sso_groups = [], sso_members = []\<rparr>,
      faults = [None, None, Some (Error ''timeout'')], trace = []\<rparr>"


text \<open>
  Notions for \<^verbatim>\<open>SyncGroups\<close>: a listing of groups in which every group sits under its own
  display name; the snapshot that \<^verbatim>\<open>GetGroups\<close> delivers from \<open>w\<close>; the world in which the
  loop over the source groups starts; a run from \<open>w\<close> to \<open>w'\<close> all of whose calls satisfy
  \<open>P\<close>; the calls that a run from \<open>w\<close> to \<open>w'\<close> added to the record.
\<close>

definition keyed_by_name :: "(string \<times> aws_Group) list \<Rightarrow> bool" where
  "keyed_by_name ag = (\<forall>k G. map_of ag k = Some G \<longrightarrow> DisplayName G = k)"


definition snapshot :: "world \<Rightarrow> (string \<times> aws_Group) list" where
  "snapshot w = map (\<lambda>g. (DisplayName g, g)) (remdups (sso_groups (sso w)))"


definition groups_start :: "world \<Rightarrow> world" where
  "groups_start w = after w [(CallGetGroups, None), (CallGetGoogleGroups, None)]"


definition reaches_by ::
  "(call \<Rightarrow> bool) \<Rightarrow> world \<Rightarrow> world \<Rightarrow> bool" where
  "reaches_by P w w' = (\<exists>evs. w' = after w evs \<and> (\<forall>ev\<in>set evs. P (fst ev)))"


definition added :: "world \<Rightarrow> world \<Rightarrow> (call \<times> error option) list" where
  "added w w' = drop (length (trace w)) (trace w')"

fun group_create :: "call \<Rightarrow> bool" where
  "group_create (CallCreateGroup _) = True"
| "group_create _ = False"

fun snapshot_or_delete :: "call \<Rightarrow> bool" where
  "snapshot_or_delete CallGetGroups = True"
| "snapshot_or_delete (CallDeleteGroup _) = True"
| "snapshot_or_delete _ = False"


text \<open>The calls of the loop over the users for one group.\<close>

fun membership_call :: "aws_Group \<Rightarrow> string set \<Rightarrow> call \<Rightarrow> bool" where
  "membership_call grp names (CallIsUserInGroup u G) = (G = grp)"
| "membership_call grp names (CallAddUserToGroup u G) = (G = grp \<and> Username u \<in> names)"
| "membership_call grp names (CallRemoveUserFromGroup u G) = (G = grp \<and> Username u \<notin> names)"
| "membership_call grp names _ = False"


text \<open>The calls of the loop over the source groups.\<close>

fun group_loop_call ::
  "(google_Group \<Rightarrow> google_Member list) \<Rightarrow> google_Group list \<Rightarrow> call \<Rightarrow> bool" where
  "group_loop_call gm gs (CallCreateGroup G) = (\<exists>g\<in>set gs. G = NewGroup (Name g))"
| "group_loop_call gm gs (CallGetGroupMembers g) = (g \<in> set gs)"
| "group_loop_call gm gs (CallIsUserInGroup u G) = (\<exists>g\<in>set gs. Name g = DisplayName G)"
| "group_loop_call gm gs (CallAddUserToGroup u G) =
     (\<exists>g\<in>set gs. Name g = DisplayName G \<and> Username u \<in> Email ` set (gm g))"
| "group_loop_call gm gs (CallRemoveUserFromGroup u G) = (\<exists>g\<in>set gs. Name g = DisplayName G)"
| "group_loop_call gm gs _ = False"


definition eng :: google_Group where "eng = \<lparr>GroupId = ''g1'', Name = ''Eng''\<rparr>"
definition eng2 :: google_Group where "eng2 = \<lparr>GroupId = ''g2'', Name = ''Eng''\<rparr>"
definition robert :: google_User where
  "robert = \<lparr>PrimaryEmail = ''robert@x.com'', GivenName = ''Robert'', FamilyName = ''Ray''\<rparr>"
definition sso_robert :: aws_User where
  "sso_robert = \<lparr>Username = ''bob@x.com'', UserEmail = ''robert@x.com'',
            UserGivenName = ''Robert'', UserFamilyName = ''Ray''\<rparr>"

definition world_alias :: world where
  "world_alias =
     \<lparr>deleted_users = [], google_users = [alice], google_groups = [eng],
      group_members = (\<lambda>g. [\<lparr>Email = ''alice@x.com''\<rparr>]),
      sso = \<lparr>sso_users = [sso_al], sso_groups = [\<lparr>DisplayName = ''Eng''\<rparr>], sso_members = []\<rparr>,
      faults = [], trace = []\<rparr>"

definition world_alias_member :: world where
  "world_alias_member =
     world_alias\<lparr>sso := \<lparr>sso_users = [sso_al], sso_groups = [\<lparr>DisplayName = ''Eng''\<rparr>],
                         sso_members = [(''al'', ''Eng'')]\<rparr>\<rparr>"

definition world_robert :: world where
  "world_robert =
     \<lparr>deleted_users = [], google_users = [robert], google_groups = [eng],
      group_members = (\<lambda>g. [\<lparr>Email = ''bob@x.com''\<rparr>]),
      sso = \<lparr>sso_users = [sso_robert], sso_groups = [\<lparr>DisplayName = ''Eng''\<rparr>], sso_members = []\<rparr>,
      faults = [], trace = []\<rparr>"

definition world_twins :: world where
  "world_twins =
     \<lparr>deleted_users = [], google_users = [], google_groups = [eng, eng2],
      group_members = (\<lambda>g. []),
      sso = \<lparr>sso_users = [], sso_groups = [\<lparr>DisplayName = ''Temp''\<rparr>], sso_members = []\<rparr>,
      faults = [], trace = []\<rparr>"


definition world_ok_done :: world where
  "world_ok_done =
     world_ok_synced\<lparr>sso := \<lparr>sso_users = [sso_alice], sso_groups = [\<lparr>DisplayName = ''Eng''\<rparr>],
                             sso_members = [(''alice@x.com'', ''Eng'')]\<rparr>,
       trace := trace world_ok_synced @
         [(CallGetGroups, None), (CallGetGoogleGroups, None),
          (CallCreateGroup \<lparr>DisplayName = ''Eng''\<rparr>, None),
          (CallGetGroupMembers eng, None),
          (CallIsUserInGroup sso_alice \<lparr>DisplayName = ''Eng''\<rparr>, None),
          (CallAddUserToGroup sso_alice \<lparr>DisplayName = ''Eng''\<rparr>, None),
          (CallDeleteGroup \<lparr>DisplayName = ''Temp''\<rparr>, None)]\<rparr>"

definition world_alias_cleared :: world where
  "world_alias_cleared =
     world_alias\<lparr>trace :=
         [(CallGetGroups, None), (CallGetGoogleGroups, None),
          (CallGetGroupMembers eng, None),
          (CallIsUserInGroup sso_al \<lparr>DisplayName = ''Eng''\<rparr>, None),
          (CallRemoveUserFromGroup sso_al \<lparr>DisplayName = ''Eng''\<rparr>, None)]\<rparr>"

definition world_robert_added :: world where
  "world_robert_added =
     world_robert\<lparr>sso := \<lparr>sso_users = [sso_robert], sso_groups = [\<lparr>DisplayName = ''Eng''\<rparr>],
                          sso_members = [(''bob@x.com'', ''Eng'')]\<rparr>,
       trace :=
         [(CallGetGroups, None), (CallGetGoogleGroups, None),
          (CallGetGroupMembers eng, None),
          (CallIsUserInGroup sso_robert \<lparr>DisplayName = ''Eng''\<rparr>, None),
          (CallAddUserToGroup sso_robert \<lparr>DisplayName = ''Eng''\<rparr>, None)]\<rparr>"

definition world_twins_done :: world where
  "world_twins_done =
     world_twins\<lparr>sso := \<lparr>sso_users = [], sso_groups = [\<lparr>DisplayName = ''Eng''\<rparr>],
                         sso_members = []\<rparr>,
       trace :=
         [(CallGetGroups, None), (CallGetGoogleGroups, None),
          (CallCreateGroup \<lparr>DisplayName = ''Eng''\<rparr>, None),
          (CallGetGroupMembers eng, None),
          (CallCreateGroup \<lparr>DisplayName = ''Eng''\<rparr>, None),
          (CallGetGroupMembers eng2, None),
          (CallDeleteGroup \<lparr>DisplayName = ''Temp''\<rparr>, None)]\<rparr>"


section \<open>Lookup errors play no part in SyncUsers\<close>

lemma wle_simps [simp]:
  "google (without_lookup_errors s) = google s"
  "users (without_lookup_errors s) = users s"
  "CreateUser (aws (without_lookup_errors s)) = CreateUser (aws s)"
  "DeleteUser (aws (without_lookup_errors s)) = DeleteUser (aws s)"
  "FindUserByEmail (aws (without_lookup_errors s)) e w =
     (case FindUserByEmail (aws s) e w of ((uu, _), w1) \<Rightarrow> ((uu, None), w1))"
  "(without_lookup_errors s)\<lparr>users := us\<rparr> = without_lookup_errors (s\<lparr>users := us\<rparr>)"
  by (simp_all add: without_lookup_errors_def)

lemma deleted_wle:
  "SyncUsers_deleted (without_lookup_errors s) ds w = SyncUsers_deleted s ds w"
  by (induction ds arbitrary: w) (simp_all split: prod.split option.split)

lemma active_wle:
  "SyncUsers_active (without_lookup_errors s) as w =
   (case SyncUsers_active s as w of (r, s', w') \<Rightarrow> (r, without_lookup_errors s', w'))"
  by (induction as arbitrary: s w) (simp_all split: prod.split option.split)

lemma SyncUsers_without_lookup_errors: "run_view (SyncUsers (without_lookup_errors s) w) = run_view (SyncUsers s w)"
  by (simp add: SyncUsers_def run_view_def deleted_wle active_wle split: prod.split option.split sum.split)

section \<open>Calls on the two ports\<close>

lemma replay_append: "replay (xs @ ys) d = replay ys (replay xs d)"
  by (induction xs d rule: replay.induct) simp_all

lemma after_Nil [simp]: "after w [] = w"
  by (simp add: after_def)

lemma after_after: "after (after w xs) ys = after w (xs @ ys)"
  by (simp add: after_def replay_append add.commute)

lemma after_fields [simp]:
  "deleted_users (after w evs) = deleted_users w"
  "google_users (after w evs) = google_users w"
  "google_groups (after w evs) = google_groups w"
  "group_members (after w evs) = group_members w"
  "sso (after w evs) = replay evs (sso w)"
  "faults (after w evs) = drop (length evs) (faults w)"
  "trace (after w evs) = trace w @ evs"
  by (simp_all add: after_def)

lemma port_eq:
  "port c a w =
     (case next_fault w of
        Some e \<Rightarrow> (Inl e, after w [(c, Some e)])
      | None \<Rightarrow>
          (case a (sso w) of
             Inl e \<Rightarrow> (Inl e, after w [(c, Some e)])
           | Inr x \<Rightarrow> (Inr x, after w [(c, None)])))"
  by (auto simp: port_def next_fault_def after_def drop_Suc
           split: list.splits option.splits sum.splits)

lemma run_shape_Cons:
  "\<not> fatal ev \<Longrightarrow> run_shape evs r \<Longrightarrow> run_shape (ev # evs) r"
  by (cases evs) (auto split: option.splits result.splits)

lemma run_shape_append:
  "\<forall>ev\<in>set xs. \<not> fatal ev \<Longrightarrow> run_shape ys r \<Longrightarrow> run_shape (xs @ ys) r"
  by (induction xs) (auto intro: run_shape_Cons)

lemma reaches_refl: "reaches w None w"
  by (auto simp: reaches_def intro: exI [of _ "[]"])

lemma reaches_after_intro: "run_shape evs r \<Longrightarrow> reaches w r (after w evs)"
  by (auto simp: reaches_def)

lemma reaches_after_dest:
  "reaches (after w evs) r w' \<Longrightarrow> \<forall>ev\<in>set evs. \<not> fatal ev \<Longrightarrow> reaches w r w'"
  by (auto simp: reaches_def after_after intro: run_shape_append)

lemma reaches_trans: "reaches w None w1 \<Longrightarrow> reaches w1 r w2 \<Longrightarrow> reaches w r w2"
  unfolding reaches_def
proof (elim exE conjE)
  fix xs ys
  assume a: "w1 = after w xs" "run_shape xs None" "w2 = after w1 ys" "run_shape ys r"
  have "\<forall>ev\<in>set zs. \<not> fatal ev" if "run_shape zs None" for zs
    using that by (induction zs "None :: result option" rule: run_shape.induct) auto
  with a have "run_shape (xs @ ys) r" by (blast intro: run_shape_append)
  moreover have "w2 = after w (xs @ ys)" using a by (simp add: after_after)
  ultimately show "\<exists>evs. w2 = after w evs \<and> run_shape evs r" by blast
qed

lemma reconciler_simps [simp]:
  "aws (reconciler us) = target_port"
  "google (reconciler us) = source_port"
  "users (reconciler us) = us"
  "(reconciler us)\<lparr>users := us'\<rparr> = reconciler us'"
  by (simp_all add: reconciler_def)

lemma source_calls:
  "GetDeletedUsers source_port w =
     (case next_fault w of
        Some e \<Rightarrow> (Inl e, after w [(CallGetDeletedUsers, Some e)])
      | None \<Rightarrow> (Inr (deleted_users w), after w [(CallGetDeletedUsers, None)]))"
  "GetUsers source_port w =
     (case next_fault w of
        Some e \<Rightarrow> (Inl e, after w [(CallGetUsers, Some e)])
      | None \<Rightarrow> (Inr (google_users w), after w [(CallGetUsers, None)]))"
  "GetGoogleGroups source_port w =
     (case next_fault w of
        Some e \<Rightarrow> (Inl e, after w [(CallGetGoogleGroups, Some e)])
      | None \<Rightarrow> (Inr (google_groups w), after w [(CallGetGoogleGroups, None)]))"
  "GetGroupMembers source_port g w =
     (case next_fault w of
        Some e \<Rightarrow> (Inl e, after w [(CallGetGroupMembers g, Some e)])
      | None \<Rightarrow> (Inr (group_members w g), after w [(CallGetGroupMembers g, None)]))"
  by (simp_all add: source_port_def port_eq split: option.splits)

lemma target_calls:
  "FindUserByEmail target_port email w =
     (case next_fault w of
        Some e \<Rightarrow> ((None, Some e), after w [(CallFindUserByEmail email, Some e)])
      | None \<Rightarrow>
          (case find (\<lambda>x. UserEmail x = email) (sso_users (sso w)) of
             None \<Rightarrow>
               ((None, Some ErrUserNotFound),
                after w [(CallFindUserByEmail email, Some ErrUserNotFound)])
           | Some u \<Rightarrow> ((Some u, None), after w [(CallFindUserByEmail email, None)])))"
  "DeleteUser target_port u w = (next_fault w, after w [(CallDeleteUser u, next_fault w)])"
  "CreateUser target_port u w =
     (case next_fault w of
        Some e \<Rightarrow> ((None, Some e), after w [(CallCreateUser u, Some e)])
      | None \<Rightarrow>
          (if Username u \<in> Username ` set (sso_users (sso w))
           then ((None, Some ErrConflict), after w [(CallCreateUser u, Some ErrConflict)])
           else ((Some u, None), after w [(CallCreateUser u, None)])))"
  "GetGroups target_port w =
     (case next_fault w of
        Some e \<Rightarrow> ((None, Some e), after w [(CallGetGroups, Some e)])
      | None \<Rightarrow>
          ((Some (map (\<lambda>g. (DisplayName g, g)) (remdups (sso_groups (sso w)))), None),
           after w [(CallGetGroups, None)]))"
  "CreateGroup target_port g w =
     (case next_fault w of
        Some e \<Rightarrow> ((None, Some e), after w [(CallCreateGroup g, Some e)])
      | None \<Rightarrow> ((Some g, None), after w [(CallCreateGroup g, None)]))"
  "IsUserInGroup target_port u g w =
     (case next_fault w of
        Some e \<Rightarrow> (Inl e, after w [(CallIsUserInGroup u g, Some e)])
      | None \<Rightarrow>
          (Inr ((Username u, DisplayName g) \<in> set (sso_members (sso w))),
           after w [(CallIsUserInGroup u g, None)]))"
  "AddUserToGroup target_port u g w =
     (next_fault w, after w [(CallAddUserToGroup u g, next_fault w)])"
  "RemoveUserFromGroup target_port u g w =
     (next_fault w, after w [(CallRemoveUserFromGroup u g, next_fault w)])"
  "DeleteGroup target_port g w = (next_fault w, after w [(CallDeleteGroup g, next_fault w)])"
  by (auto simp: target_port_def port_eq pointer_result_def error_result_def
        split: sum.splits option.splits)


section \<open>Every loop stops at its first fatal call\<close>

lemma deleted_reaches:
  "SyncUsers_deleted (reconciler us) ds w = (r, w') \<Longrightarrow> reaches w r w'"
proof (induction ds arbitrary: w)
  case Nil
  then show ?case by (simp add: reaches_refl)
next
  case (Cons u ds)
  then show ?case
    by (auto simp: target_calls fatal_def after_after
          split: sum.splits option.splits if_splits
          dest!: Cons.IH reaches_after_dest intro!: reaches_after_intro)
qed


lemma active_reaches:
  "SyncUsers_active (reconciler us) as w = (r, s', w') \<Longrightarrow> reaches w r w'"
proof (induction as arbitrary: us w)
  case Nil
  then show ?case by (simp add: reaches_refl)
next
  case (Cons u as)
  then show ?case
    by (auto simp: target_calls fatal_def after_after
          split: sum.splits option.splits if_splits
          dest!: Cons.IH reaches_after_dest intro!: reaches_after_intro)
qed

lemma active_reconciler:
  "SyncUsers_active (reconciler us) as w = (r, s', w') \<Longrightarrow> \<exists>us'. s' = reconciler us'"
proof (induction as arbitrary: us w)
  case Nil
  then show ?case by auto
next
  case (Cons u as)
  then show ?case
    by (auto simp: target_calls split: sum.splits option.splits if_splits)
qed

lemma reaches_return: "reaches w None w' \<Longrightarrow> reaches w (Some (Return None)) w'"
proof -
  have "run_shape evs None \<Longrightarrow> run_shape evs (Some (Return None))" for evs
    by (induction evs "None :: result option" rule: run_shape.induct) auto
  then show "reaches w None w' \<Longrightarrow> reaches w (Some (Return None)) w'"
    by (auto simp: reaches_def)
qed

lemma reaches_call:
  "reaches w None w1 \<Longrightarrow> run_shape evs r \<Longrightarrow> reaches w r (after w1 evs)"
  by (erule reaches_trans) (rule reaches_after_intro)

lemma SyncUsers_reaches:
  assumes "SyncUsers (reconciler us) w = (r, s', w')"
  shows "reaches w (Some r) w'"
proof (cases "next_fault w")
  case (Some e)
  with assms show ?thesis
    by (auto simp: SyncUsers_def source_calls fatal_def intro!: reaches_after_intro)
next
  case None
  define w1 where "w1 = after w [(CallGetDeletedUsers, None)]"
  have 1: "reaches w None w1"
    unfolding w1_def by (rule reaches_after_intro) (simp add: fatal_def)
  obtain r2 w2 where d: "SyncUsers_deleted (reconciler us) (deleted_users w) w1 = (r2, w2)"
    by (cases "SyncUsers_deleted (reconciler us) (deleted_users w) w1")
  note 2 = reaches_trans [OF 1 deleted_reaches [OF d]]
  show ?thesis
  proof (cases r2)
    case (Some r')
    with assms None d 2 show ?thesis by (simp add: SyncUsers_def source_calls w1_def)
  next
    case r2: None
    show ?thesis
    proof (cases "next_fault w2")
      case (Some e)
      with assms None d r2 have "r = Return (Some e)" "w' = after w2 [(CallGetUsers, Some e)]"
        by (simp_all add: SyncUsers_def source_calls w1_def)
      with 2 r2 show ?thesis by (auto intro!: reaches_call)
    next
      case f2: None
      define w3 where "w3 = after w2 [(CallGetUsers, None)]"
      have 3: "reaches w None w3"
        using 2 r2 unfolding w3_def by (auto intro!: reaches_call simp: fatal_def)
      obtain r4 s4 w4 where a: "SyncUsers_active (reconciler us) (google_users w2) w3 = (r4, s4, w4)"
        by (cases "SyncUsers_active (reconciler us) (google_users w2) w3")
      note 4 = reaches_trans [OF 3 active_reaches [OF a]]
      from assms None d r2 f2 a have "w' = w4" "r4 = None \<and> r = Return None \<or> r4 = Some r"
        by (auto simp: SyncUsers_def source_calls w1_def w3_def split: option.splits)
      with 4 show ?thesis by (auto intro: reaches_return)
    qed
  qed
qed

lemma users_reaches:
  "SyncGroups_users (reconciler us) grp ml xs w = (r, w') \<Longrightarrow> reaches w r w'"
proof (induction xs arbitrary: w)
  case Nil
  then show ?case by (simp add: reaches_refl)
next
  case (Cons x xs)
  obtain k u where x: "x = (k, u)" by (cases x)
  from Cons show ?case unfolding x
    by (auto simp: target_calls fatal_def after_after
          split: sum.splits option.splits if_splits
          dest!: Cons.IH reaches_after_dest intro!: reaches_after_intro)
qed

lemma correlate_reaches:
  "SyncGroups_correlate (reconciler us) ag g cg w = (x, w') \<Longrightarrow>
   reaches w (case x of Inl r \<Rightarrow> Some r | Inr _ \<Rightarrow> None) w'"
  by (auto simp: SyncGroups_correlate_def target_calls fatal_def
        reaches_refl
        split: sum.splits option.splits intro!: reaches_after_intro)

lemma groups_reaches:
  "SyncGroups_groups (reconciler us) ag gs cg w = (r, cg', w') \<Longrightarrow> reaches w r w'"
proof (induction gs arbitrary: cg w)
  case Nil
  then show ?case by (simp add: reaches_refl)
next
  case (Cons g gs)
  show ?case
  proof (cases "SyncGroups_correlate (reconciler us) ag g cg w")
    case (Pair x w1)
    note c = correlate_reaches [OF Pair]
    show ?thesis
    proof (cases x)
      case (Inl r')
      with Cons.prems Pair c show ?thesis by simp
    next
      case (Inr p)
      with c have 1: "reaches w None w1" by simp
      from Inr Cons.prems Pair have "reaches w1 r w'"
        proof (cases "next_fault w1")
        case (Some e)
        with Inr Cons.prems Pair show ?thesis
          by (auto simp: source_calls fatal_def split: prod.splits intro!: reaches_after_intro)
      next
        case None
        obtain r3 w3 where
          u: "SyncGroups_users (reconciler us) (snd p) (memberList_of us (group_members w1 g) []) us
                (after w1 [(CallGetGroupMembers g, None)]) = (r3, w3)"
          by (cases "SyncGroups_users (reconciler us) (snd p) (memberList_of us (group_members w1 g) []) us
                (after w1 [(CallGetGroupMembers g, None)])")
        have 3: "reaches w1 r3 w3"
          by (rule reaches_after_dest [OF users_reaches [OF u]]) (simp add: fatal_def)
        show ?thesis
        proof (cases r3)
          case (Some r')
          with Inr Cons.prems Pair None u 3 show ?thesis
            by (cases p) (simp add: source_calls)
        next
          case r3: None
          with Inr Cons.prems Pair None u
          have "SyncGroups_groups (reconciler us) ag gs (fst p) w3 = (r, cg', w')"
            by (cases p) (simp add: source_calls)
          from reaches_trans [OF 3 [unfolded r3] Cons.IH [OF this]] show ?thesis .
        qed
      qed
      with 1 show ?thesis by (rule reaches_trans)
    qed
  qed
qed

lemma cleanup_reaches:
  "SyncGroups_cleanup (reconciler us) cg xs w = (r, w') \<Longrightarrow> reaches w r w'"
proof (induction xs arbitrary: w)
  case Nil
  then show ?case by (simp add: reaches_refl)
next
  case (Cons x xs)
  obtain k g where x: "x = (k, g)" by (cases x)
  from Cons show ?case unfolding x
    by (auto simp: target_calls fatal_def after_after
          split: sum.splits option.splits if_splits
          dest!: Cons.IH reaches_after_dest intro!: reaches_after_intro)
qed

lemma SyncGroups_reaches:
  assumes "SyncGroups (reconciler us) w = (r, w')"
  shows "reaches w (Some r) w'"
proof (cases "next_fault w")
  case (Some e)
  with assms show ?thesis
    by (auto simp: SyncGroups_def target_calls fatal_def intro!: reaches_after_intro)
next
  case None
  define ag where "ag = map (\<lambda>g. (DisplayName g, g)) (remdups (sso_groups (sso w)))"
  define w1 where "w1 = after w [(CallGetGroups, None)]"
  have 1: "reaches w None w1"
    unfolding w1_def by (rule reaches_after_intro) (simp add: fatal_def)
  show ?thesis
  proof (cases "next_fault w1")
    case (Some e)
    with assms None have "r = Return (Some e)" "w' = after w1 [(CallGetGoogleGroups, Some e)]"
      by (simp_all add: SyncGroups_def target_calls source_calls w1_def)
    with 1 show ?thesis by (auto intro!: reaches_call)
  next
    case f1: None
    define w2 where "w2 = after w1 [(CallGetGoogleGroups, None)]"
    have 2: "reaches w None w2"
      using 1 unfolding w2_def by (auto intro!: reaches_call simp: fatal_def)
    obtain r3 cg w3 where
      g: "SyncGroups_groups (reconciler us) ag (google_groups w1) [] w2 = (r3, cg, w3)"
      by (cases "SyncGroups_groups (reconciler us) ag (google_groups w1) [] w2")
    note 3 = reaches_trans [OF 2 groups_reaches [OF g]]
    show ?thesis
    proof (cases r3)
      case (Some r')
      with assms None f1 g 3 show ?thesis
        by (simp add: SyncGroups_def target_calls source_calls w1_def w2_def ag_def)
    next
      case r3: None
      obtain r4 w4 where c: "SyncGroups_cleanup (reconciler us) cg ag w3 = (r4, w4)"
        by (cases "SyncGroups_cleanup (reconciler us) cg ag w3")
      note 4 = reaches_trans [OF 3 [unfolded r3] cleanup_reaches [OF c]]
      from assms None f1 g r3 c have "w' = w4" "r4 = None \<and> r = Return None \<or> r4 = Some r"
        by (auto simp: SyncGroups_def target_calls source_calls w1_def w2_def ag_def
              split: option.splits)
      with 4 show ?thesis by (auto intro: reaches_return)
    qed
  qed
qed

lemma SyncUsers_reconciler:
  "SyncUsers (reconciler us) w = (r, s', w') \<Longrightarrow> \<exists>us'. s' = reconciler us'"
  by (auto simp: SyncUsers_def split: sum.splits option.splits prod.splits
        dest: active_reconciler)

lemma run_shape_success: "run_shape evs (Some (Return None)) \<Longrightarrow> run_shape evs None"
  by (induction evs "None :: result option" rule: run_shape.induct) auto

lemma DoSync_reaches:
  assumes "DoSync target_port source_port w = (r, w')"
  shows "reaches w (Some r) w'"
proof -
  obtain r1 s1 w1 where u: "SyncUsers (reconciler []) w = (r1, s1, w1)"
    by (cases "SyncUsers (reconciler []) w")
  from SyncUsers_reconciler [OF u] obtain us where s1: "s1 = reconciler us" by blast
  note 1 = SyncUsers_reaches [OF u]
  show ?thesis
  proof (cases "r1 = Return None")
    case True
    with assms u s1 have "SyncGroups (reconciler us) w1 = (r, w')"
      by (simp add: DoSync_def New_def reconciler_def)
    from SyncGroups_reaches [OF this] have 2: "reaches w1 (Some r) w'" .
    from 1 True have "reaches w None w1"
      by (auto simp: reaches_def dest: run_shape_success)
    then show ?thesis using 2 by (rule reaches_trans)
  next
    case False
    with assms u have "r = r1" "w' = w1"
      by (auto simp: DoSync_def New_def reconciler_def split: result.splits option.splits)
    with 1 show ?thesis by simp
  qed
qed

lemma run_shape_index:
  "run_shape evs (Some r) \<Longrightarrow> i < length evs \<Longrightarrow> fatal (evs ! i) \<Longrightarrow>
   Suc i = length evs \<and> r = Return (snd (evs ! i))"
proof (induction evs "Some r" arbitrary: i rule: run_shape.induct)
  case 1
  then show ?case by simp
next
  case (2 ev)
  then show ?case by (auto simp: fatal_def split: result.splits option.splits)
next
  case (3 ev ev' evs)
  then show ?case by (cases i) auto
qed


lemma reaches_stops:
  assumes "reaches w (Some r) w'"
  shows "stops_at_first_error w r w'"
proof -
  from assms obtain evs where "w' = after w evs" "run_shape evs (Some r)"
    by (auto simp: reaches_def)
  then show ?thesis by (auto simp: stops_at_first_error_def dest: run_shape_index)
qed

lemma active_trace:
  "SyncUsers_active (reconciler us) as w = (r, s', w') \<Longrightarrow> \<exists>evs. trace w' = trace w @ evs"
  by (auto dest!: active_reaches simp: reaches_def)

lemma create_follows:
  assumes "FindUserByEmail target_port (PrimaryEmail u) w = ((None, Some e), w1)"
  shows "\<exists>x evs. trace (snd (snd (SyncUsers_active (reconciler us) (u # as) w))) =
           trace w1 @ (CallCreateUser (NewUser (GivenName u) (FamilyName u) (PrimaryEmail u)), x) # evs"
proof -
  define nu where "nu = NewUser (GivenName u) (FamilyName u) (PrimaryEmail u)"
  obtain p err w2 where c: "CreateUser target_port nu w1 = ((p, err), w2)"
    by (cases "CreateUser target_port nu w1") auto
  then have w2: "trace w2 = trace w1 @ [(CallCreateUser nu, err)]"
    by (auto simp: target_calls split: option.splits if_splits)
  show ?thesis
  proof (cases "err = None \<and> p \<noteq> None")
    case True
    then obtain uu where p: "p = Some uu" "err = None" by auto
    obtain r s' w' where
      a: "SyncUsers_active (reconciler (AList.update (Username uu) uu us)) as w2 = (r, s', w')"
      by (cases "SyncUsers_active (reconciler (AList.update (Username uu) uu us)) as w2")
    from active_trace [OF a] obtain evs where "trace w' = trace w2 @ evs" by blast
    with assms c p a w2 show ?thesis by (simp add: nu_def)
  next
    case False
    with assms c w2 show ?thesis
      by (cases p; cases err) (auto simp: nu_def)
  qed
qed


text \<open>
  C6. During principal reconciliation the error of a find-by-email lookup is never
  returned to the caller, and a lookup that comes back with an error and no principal is
  treated as "no counterpart". First, \<^verbatim>\<open>SyncUsers\<close> behaves the same (result, table, world)
  when every lookup error is dropped, for any two clients. Second, on the directory model,
  whenever the lookup for \<open>u\<close> answers with an error (an injected fault or "not found"): in
  the loop over the deleted users the loop goes on with the next user from the world the
  lookup left (no delete, no return), and in the loop over the active users the next call
  is the creation of \<open>u\<close>.
\<close>

theorem lookup_error_treated_as_absent:
  fixes s :: "'w syncGSuite"
  shows "run_view (SyncUsers (without_lookup_errors s) w) = run_view (SyncUsers s w) \<and>
    (FindUserByEmail target_port (PrimaryEmail u) v = ((None, Some e), v1) \<longrightarrow>
       SyncUsers_deleted (reconciler us) (u # deletedUsers) v =
         SyncUsers_deleted (reconciler us) deletedUsers v1 \<and>
       (\<exists>x evs. trace (snd (snd (SyncUsers_active (reconciler us) (u # googleUsers) v))) =
           trace v1 @
           (CallCreateUser (NewUser (GivenName u) (FamilyName u) (PrimaryEmail u)), x) # evs))"
  using create_follows [of u v e v1 us googleUsers] by (simp add: SyncUsers_without_lookup_errors)

theorem lookup_error_treated_as_absent_witness:
  "FindUserByEmail target_port (PrimaryEmail alice) world_lookup_fails =
     ((None, Some (Error ''timeout'')),
      after world_lookup_fails
        [(CallFindUserByEmail (PrimaryEmail alice), Some (Error ''timeout''))]) \<and>
   SyncUsers_deleted (reconciler []) [alice] world_lookup_fails =
     SyncUsers_deleted (reconciler []) []
       (after world_lookup_fails
          [(CallFindUserByEmail (PrimaryEmail alice), Some (Error ''timeout''))]) \<and>
   (\<exists>x evs. trace (snd (snd (SyncUsers_active (reconciler []) [alice] world_lookup_fails))) =
      trace (after world_lookup_fails
               [(CallFindUserByEmail (PrimaryEmail alice), Some (Error ''timeout''))]) @
      (CallCreateUser (NewUser (GivenName alice) (FamilyName alice) (PrimaryEmail alice)), x) #
      evs)"
proof -
  have h: "FindUserByEmail target_port (PrimaryEmail alice) world_lookup_fails =
     ((None, Some (Error ''timeout'')),
      after world_lookup_fails
        [(CallFindUserByEmail (PrimaryEmail alice), Some (Error ''timeout''))])"
    by (simp add: target_calls next_fault_def world_lookup_fails_def)
  from lookup_error_treated_as_absent
         [where s = "reconciler []" and w = world_lookup_fails
            and u = alice and v = world_lookup_fails and e = "Error ''timeout''"
            and ?v1.0 = "after world_lookup_fails
               [(CallFindUserByEmail (PrimaryEmail alice), Some (Error ''timeout''))]"
            and us = "[]" and deletedUsers = "[]" and googleUsers = "[]"] h
  show ?thesis by blast
qed

text \<open>
  C7. An error of a list fetch, of a create, delete, add or remove, or of a membership
  check ends the run at once. For \<^verbatim>\<open>SyncUsers\<close>, for \<^verbatim>\<open>SyncGroups\<close> and for the two in
  sequence, from any world and with any schedule of faults: among the calls the run makes,
  a failed call other than a lookup is the last call, its error is what the run returns,
  and the target directory at the end is the replay of the calls that succeeded, so
  nothing done before the failure is undone.
\<close>

theorem error_aborts_run:
  "(case SyncUsers (reconciler us) w of (r, s', w') \<Rightarrow> stops_at_first_error w r w') \<and>
   (case SyncGroups (reconciler us) w of (r, w') \<Rightarrow> stops_at_first_error w r w') \<and>
   (case DoSync target_port source_port w of (r, w') \<Rightarrow> stops_at_first_error w r w')"
  by (auto split: prod.splits
        intro: reaches_stops SyncUsers_reaches SyncGroups_reaches DoSync_reaches)

theorem error_aborts_run_witness:
  "(case DoSync target_port source_port world_create_fails of
      (r, w') \<Rightarrow>
        fatal (trace w' ! 5) \<and> length (trace w') = 6 \<and> r = Return (Some (Error ''boom'')) \<and>
        sso_users (sso w') = [] \<and> stops_at_first_error world_create_fails r w')"
proof -
  have "DoSync target_port source_port world_create_fails =
    (Return (Some (Error ''boom'')),
     world_create_fails\<lparr>sso := \<lparr>sso_users = [], sso_groups = [\<lparr>DisplayName = ''Temp''\<rparr>],
                                sso_members = []\<rparr>,
       faults := [],
       trace := [(CallGetDeletedUsers, None), (CallFindUserByEmail ''bob@x.com'', None),
         (CallDeleteUser sso_bob, None), (CallGetUsers, None),
         (CallFindUserByEmail ''alice@x.com'', Some ErrUserNotFound),
         (CallCreateUser sso_alice, Some (Error ''boom''))]\<rparr>)"
    by (simp add: DoSync_def SyncUsers_def New_def world_create_fails_def source_port_def
          target_port_def port_def pointer_result_def error_result_def NewUser_def
          alice_def bob_def sso_bob_def sso_alice_def)
  with error_aborts_run [where us = "[]" and w = world_create_fails] show ?thesis
    by (simp add: fatal_def)
qed


section \<open>SyncUsers on the two directories\<close>

lemma deleted_append:
  "SyncUsers_deleted s (xs @ ys) w =
     (case SyncUsers_deleted s xs w of
        (None, w1) \<Rightarrow> SyncUsers_deleted s ys w1
      | (Some r, w1) \<Rightarrow> (Some r, w1))"
  by (induction xs arbitrary: w) (simp_all split: prod.split option.split)

lemma active_append:
  "SyncUsers_active s (xs @ ys) w =
     (case SyncUsers_active s xs w of
        (None, s1, w1) \<Rightarrow> SyncUsers_active s1 ys w1
      | (Some r, s1, w1) \<Rightarrow> (Some r, s1, w1))"
  by (induction xs arbitrary: s w) (simp_all split: prod.split option.split)

lemma deleted_not_nil: "fst (SyncUsers_deleted s ds w) \<noteq> Some (Return None)"
  by (induction ds arbitrary: w) (simp_all split: prod.split option.split)

lemma active_not_nil: "fst (SyncUsers_active s as w) \<noteq> Some (Return None)"
  by (induction as arbitrary: s w) (simp_all split: prod.split option.split)

lemma reaches_fields:
  assumes "reaches w r w'"
  shows "deleted_users w' = deleted_users w" "google_users w' = google_users w"
    "google_groups w' = google_groups w" "group_members w' = group_members w"
  using assms by (auto simp: reaches_def)

text \<open>A successful SyncUsers, taken apart.\<close>

lemma SyncUsers_success:
  assumes "SyncUsers (reconciler us) w = (Return None, s', w')"
  obtains w2 where
    "next_fault w = None"
    "SyncUsers_deleted (reconciler us) (deleted_users w) (after w [(CallGetDeletedUsers, None)]) =
       (None, w2)"
    "next_fault w2 = None"
    "SyncUsers_active (reconciler us) (google_users w) (after w2 [(CallGetUsers, None)]) =
       (None, s', w')"
proof -
  from assms have f: "next_fault w = None"
    by (auto simp: SyncUsers_def source_calls split: option.splits)
  define w1 where "w1 = after w [(CallGetDeletedUsers, None)]"
  obtain r2 w2 where d: "SyncUsers_deleted (reconciler us) (deleted_users w) w1 = (r2, w2)"
    by (cases "SyncUsers_deleted (reconciler us) (deleted_users w) w1")
  from deleted_not_nil [of "reconciler us" "deleted_users w" w1] d
  have n: "r2 \<noteq> Some (Return None)" by simp
  with assms f d have r2: "r2 = None"
    by (cases r2) (auto simp: SyncUsers_def source_calls w1_def)
  from reaches_fields(2) [OF deleted_reaches [OF d]] have g: "google_users w2 = google_users w"
    by (simp add: w1_def)
  from assms f d r2 have f2: "next_fault w2 = None"
    by (auto simp: SyncUsers_def source_calls w1_def split: option.splits)
  obtain r4 s4 w4 where
    a: "SyncUsers_active (reconciler us) (google_users w) (after w2 [(CallGetUsers, None)]) =
          (r4, s4, w4)"
    by (cases "SyncUsers_active (reconciler us) (google_users w) (after w2 [(CallGetUsers, None)])")
  from active_not_nil [of "reconciler us" "google_users w" "after w2 [(CallGetUsers, None)]"] a
  have "r4 \<noteq> Some (Return None)" by simp
  with assms f d r2 f2 g a have "r4 = None" "s4 = s'" "w4 = w'"
    by (cases r4; auto simp: SyncUsers_def source_calls w1_def)+
  with that f d r2 f2 a show thesis by (simp add: w1_def)
qed

lemma deleted_filter:
  "SyncUsers_deleted (reconciler us) ds w = (r, w') \<Longrightarrow>
   \<exists>P. sso_users (sso w') = filter P (sso_users (sso w))"
proof (induction ds arbitrary: w)
  case Nil
  then show ?case by (auto intro: exI [of _ "\<lambda>x. True"])
next
  case (Cons u ds)
  have f: "\<exists>P. filter Q (filter R xs) = filter P xs" for Q R and xs :: "aws_User list"
    by (auto intro: exI [of _ "\<lambda>x. R x \<and> Q x"])
  have t: "\<exists>P. xs = filter P xs" for xs :: "aws_User list"
    by (auto intro: exI [of _ "\<lambda>x. True"])
  from Cons.prems show ?case
    by (auto simp: target_calls split: option.splits dest!: Cons.IH intro: f t)
qed

lemma active_created:
  "SyncUsers_active (reconciler us) as w = (r, s', w') \<Longrightarrow>
   \<exists>cs. sso_users (sso w') = sso_users (sso w) @ cs \<and>
     (\<forall>c\<in>set cs. \<exists>a\<in>set as. c = NewUser (GivenName a) (FamilyName a) (PrimaryEmail a))"
proof (induction as arbitrary: us w)
  case Nil
  then show ?case by simp
next
  case (Cons u as)
  from Cons.prems show ?case
    by (auto simp: target_calls split: option.splits if_splits dest!: Cons.IH)
qed

lemma NewUser_fields [simp]:
  "Username (NewUser g f e) = e" "UserEmail (NewUser g f e) = e"
  "UserGivenName (NewUser g f e) = g" "UserFamilyName (NewUser g f e) = f"
  by (simp_all add: NewUser_def)

lemma find_SomeD: "find P xs = Some x \<Longrightarrow> x \<in> set xs \<and> P x"
  by (auto simp: find_Some_iff)

lemma deleted_turn:
  assumes "SyncUsers_deleted (reconciler us) [u] w1 = (None, w2)"
  shows "case fst (fst (FindUserByEmail target_port (PrimaryEmail u) w1)) of
           Some uu \<Rightarrow>
             uu \<in> set (sso_users (sso w1)) \<and> UserEmail uu = PrimaryEmail u \<and>
             trace w2 = trace w1 @
               [(CallFindUserByEmail (PrimaryEmail u), None), (CallDeleteUser uu, None)] \<and>
             Username uu \<notin> Username ` set (sso_users (sso w2))
         | None \<Rightarrow>
             (\<exists>e. trace w2 = trace w1 @ [(CallFindUserByEmail (PrimaryEmail u), Some e)]) \<and>
             sso w2 = sso w1"
  using assms
  by (auto simp: target_calls split: option.splits dest: find_SomeD)


lemma active_reconciler_None:
  assumes "SyncUsers_active (reconciler us) as w = (r, s', w')"
  obtains us' where "s' = reconciler us'"
  using active_reconciler [OF assms] by blast

lemma active_turn:
  assumes "SyncUsers_active (reconciler us1) [a] w1 = (None, s2, w2)"
  shows "case fst (fst (FindUserByEmail target_port (PrimaryEmail a) w1)) of
           Some uu \<Rightarrow>
             uu \<in> set (sso_users (sso w1)) \<and> UserEmail uu = PrimaryEmail a \<and>
             trace w2 = trace w1 @ [(CallFindUserByEmail (PrimaryEmail a), None)] \<and>
             sso w2 = sso w1 \<and>
             users s2 = AList.update (Username uu) uu us1
         | None \<Rightarrow>
             (\<exists>e. trace w2 = trace w1 @
                [(CallFindUserByEmail (PrimaryEmail a), Some e),
                 (CallCreateUser (NewUser (GivenName a) (FamilyName a) (PrimaryEmail a)), None)]) \<and>
             PrimaryEmail a \<notin> Username ` set (sso_users (sso w1)) \<and>
             sso_users (sso w2) =
               sso_users (sso w1) @ [NewUser (GivenName a) (FamilyName a) (PrimaryEmail a)] \<and>
             users s2 =
               AList.update (PrimaryEmail a)
                 (NewUser (GivenName a) (FamilyName a) (PrimaryEmail a)) us1"
  using assms
  by (auto simp: target_calls split: option.splits if_splits dest: find_SomeD)

lemma active_other_emails:
  "SyncUsers_active (reconciler us) as w = (None, s', w') \<Longrightarrow>
   e \<notin> PrimaryEmail ` set as \<Longrightarrow>
   filter (\<lambda>x. UserEmail x = e) (sso_users (sso w')) =
   filter (\<lambda>x. UserEmail x = e) (sso_users (sso w))"
proof (induction as arbitrary: us w)
  case Nil
  then show ?case by simp
next
  case (Cons u as)
  from Cons.prems show ?case
    by (auto simp: target_calls split: option.splits if_splits dest!: Cons.IH)
qed

lemma active_other_entry:
  "SyncUsers_active (reconciler us) as w = (None, s', w') \<Longrightarrow>
   e \<notin> PrimaryEmail ` set as \<Longrightarrow>
   \<forall>x\<in>set (sso_users (sso w)). Username x = e \<longrightarrow> UserEmail x = e \<Longrightarrow>
   map_of (users s') e = map_of us e"
proof (induction as arbitrary: us w)
  case Nil
  then show ?case by auto
next
  case (Cons u as)
  from Cons.prems show ?case
    by (auto simp: target_calls update_conv' split: option.splits if_splits
          dest!: Cons.IH dest: find_SomeD)
qed

lemma SyncUsers_phases:
  assumes "SyncUsers (reconciler us) w = (Return None, s', w')"
  shows "fst (SyncUsers_deleted (reconciler us) (deleted_users w) (deleted_start w)) = None"
    and "SyncUsers_active (reconciler us) (google_users w) (active_start us w) = (None, s', w')"
    and "\<exists>P. sso_users (sso (active_start us w)) = filter P (sso_users (sso w))"
proof -
  from assms obtain wd where
    f: "next_fault w = None" and
    d: "SyncUsers_deleted (reconciler us) (deleted_users w) (after w [(CallGetDeletedUsers, None)]) =
       (None, wd)" and
    f2: "next_fault wd = None" and
    a: "SyncUsers_active (reconciler us) (google_users w) (after wd [(CallGetUsers, None)]) =
       (None, s', w')"
    by (rule SyncUsers_success)
  have ds: "deleted_start w = after w [(CallGetDeletedUsers, None)]"
    using f by (simp add: deleted_start_def source_calls)
  have as: "active_start us w = after wd [(CallGetUsers, None)]"
    using f2 d by (simp add: active_start_def ds source_calls)
  show "fst (SyncUsers_deleted (reconciler us) (deleted_users w) (deleted_start w)) = None"
    using d by (simp add: ds)
  show "SyncUsers_active (reconciler us) (google_users w) (active_start us w) = (None, s', w')"
    using a by (simp add: as)
  from deleted_filter [OF d]
  show "\<exists>P. sso_users (sso (active_start us w)) = filter P (sso_users (sso w))"
    by (simp add: as)
qed

lemma active_split:
  assumes "SyncUsers_active (reconciler us) (pre @ a # post) w0 = (None, s', w')"
  obtains us1 w1 us2 w2 where
    "SyncUsers_active (reconciler us) pre w0 = (None, reconciler us1, w1)"
    "SyncUsers_active (reconciler us1) [a] w1 = (None, reconciler us2, w2)"
    "SyncUsers_active (reconciler us2) post w2 = (None, s', w')"
proof -
  obtain r1 s1 w1 where 1: "SyncUsers_active (reconciler us) pre w0 = (r1, s1, w1)"
    by (cases "SyncUsers_active (reconciler us) pre w0")
  from active_reconciler [OF 1] obtain us1 where s1: "s1 = reconciler us1" by blast
  obtain r2 s2 w2 where 2: "SyncUsers_active (reconciler us1) [a] w1 = (r2, s2, w2)"
    by (cases "SyncUsers_active (reconciler us1) [a] w1")
  from active_reconciler [OF 2] obtain us2 where s2: "s2 = reconciler us2" by blast
  from assms have "SyncUsers_active (reconciler us) (pre @ [a] @ post) w0 = (None, s', w')"
    by simp
  with 1 2 s1 s2 have "r1 = None" "r2 = None"
    "SyncUsers_active (reconciler us2) post w2 = (None, s', w')"
    by (auto simp only: active_append prod.case split: option.splits)
  with that 1 2 s1 s2 show thesis by blast
qed

text \<open>
  An active principal whose email no user of the target has when the run starts, primary
  emails being unique in the source: the run creates its one counterpart.
\<close>

lemma created_once:
  assumes run: "SyncUsers (reconciler us) w = (Return None, s', w')"
    and a: "a \<in> set (google_users w)"
    and dist: "distinct (map PrimaryEmail (google_users w))"
    and absent: "PrimaryEmail a \<notin> UserEmail ` set (sso_users (sso w))"
  shows "filter (\<lambda>x. UserEmail x = PrimaryEmail a) (sso_users (sso w')) =
           [NewUser (GivenName a) (FamilyName a) (PrimaryEmail a)] \<and>
         map_of (users s') (PrimaryEmail a) =
           Some (NewUser (GivenName a) (FamilyName a) (PrimaryEmail a))"
proof -
  define e where "e = PrimaryEmail a"
  define nu where "nu = NewUser (GivenName a) (FamilyName a) (PrimaryEmail a)"
  from a obtain pre post where gu: "google_users w = pre @ a # post"
    by (auto dest: split_list)
  with dist have npre: "e \<notin> PrimaryEmail ` set pre" and npost: "e \<notin> PrimaryEmail ` set post"
    by (auto simp: e_def)
  note ph = SyncUsers_phases [OF run]
  from absent have "\<forall>x\<in>set (sso_users (sso w)). UserEmail x \<noteq> e"
    by (metis e_def imageI)
  with ph(3) have 0: "filter (\<lambda>x. UserEmail x = e) (sso_users (sso (active_start us w))) = []"
    by (auto simp: filter_empty_conv)
  from ph(2) gu obtain us1 w1 us2 w2 where
    1: "SyncUsers_active (reconciler us) pre (active_start us w) = (None, reconciler us1, w1)" and
    2: "SyncUsers_active (reconciler us1) [a] w1 = (None, reconciler us2, w2)" and
    3: "SyncUsers_active (reconciler us2) post w2 = (None, s', w')"
    by (auto elim: active_split)
  from active_other_emails [OF 1 npre] 0
  have e1: "filter (\<lambda>x. UserEmail x = e) (sso_users (sso w1)) = []" by simp
  then have "find (\<lambda>x. UserEmail x = e) (sso_users (sso w1)) = None"
    by (auto simp: find_None_iff filter_empty_conv)
  then have "fst (fst (FindUserByEmail target_port (PrimaryEmail a) w1)) = None"
    by (simp add: target_calls e_def split: option.splits)
  with active_turn [OF 2] have
    un: "e \<notin> Username ` set (sso_users (sso w1))" and
    u2: "sso_users (sso w2) = sso_users (sso w1) @ [nu]" and
    t2: "us2 = AList.update e nu us1"
    by (simp_all add: e_def nu_def)
  from e1 u2 have e2: "filter (\<lambda>x. UserEmail x = e) (sso_users (sso w2)) = [nu]"
    by (simp add: nu_def e_def)
  from un have "\<forall>x\<in>set (sso_users (sso w1)). Username x \<noteq> e"
    by (metis imageI)
  with u2 have inv: "\<forall>x\<in>set (sso_users (sso w2)). Username x = e \<longrightarrow> UserEmail x = e"
    by (auto simp: nu_def e_def)
  from active_other_emails [OF 3 npost] e2
  have "filter (\<lambda>x. UserEmail x = e) (sso_users (sso w')) = [nu]" by simp
  moreover from active_other_entry [OF 3 npost inv] t2
  have "map_of (users s') e = Some nu" by (simp add: update_conv')
  ultimately show ?thesis by (simp add: e_def nu_def)
qed





lemma active_step:
  assumes "SyncUsers_active (reconciler us) (u # as) w = (None, s', w')"
  obtains y w2 where
    "SyncUsers_active (reconciler (AList.update (Username y) y us)) as w2 = (None, s', w')"
    "UserEmail y = PrimaryEmail u" "y \<in> set (sso_users (sso w2))"
    "sso_users (sso w2) = sso_users (sso w) \<or>
     sso_users (sso w2) = sso_users (sso w) @ [y] \<and>
     (\<forall>x\<in>set (sso_users (sso w)). Username x \<noteq> Username y)"
proof -
  from assms have "SyncUsers_active (reconciler us) ([] @ u # as) w = (None, s', w')" by simp
  then obtain us1 w1 us2 w2 where
    1: "SyncUsers_active (reconciler us) [] w = (None, reconciler us1, w1)" and
    2: "SyncUsers_active (reconciler us1) [u] w1 = (None, reconciler us2, w2)" and
    3: "SyncUsers_active (reconciler us2) as w2 = (None, s', w')"
    by (rule active_split)
  from 1 have "users (reconciler us) = users (reconciler us1)" "w1 = w" by simp_all
  then have eq: "us1 = us" "w1 = w" by simp_all
  note t = active_turn [OF 2 [unfolded eq]]
  show thesis
  proof (cases "fst (fst (FindUserByEmail target_port (PrimaryEmail u) w))")
    case None
    define nu where "nu = NewUser (GivenName u) (FamilyName u) (PrimaryEmail u)"
    from t None have
      un: "PrimaryEmail u \<notin> Username ` set (sso_users (sso w))" and
      u2: "sso_users (sso w2) = sso_users (sso w) @ [nu]" and
      t2: "us2 = AList.update (Username nu) nu us"
      by (simp_all add: nu_def)
    from un have "\<forall>x\<in>set (sso_users (sso w)). Username x \<noteq> Username nu"
      by (metis imageI NewUser_fields(1) nu_def)
    with u2 t2 3 show thesis
      by (intro that [of nu w2]) (simp_all add: nu_def)
  next
    case (Some uu)
    with t have "uu \<in> set (sso_users (sso w))" "UserEmail uu = PrimaryEmail u"
      "sso w2 = sso w" "us2 = AList.update (Username uu) uu us"
      by simp_all
    with 3 show thesis
      by (intro that [of uu w2]) simp_all
  qed
qed

lemma inj_usernames:
  "distinct (map Username xs) \<Longrightarrow> x \<in> set xs \<Longrightarrow> y \<in> set xs \<Longrightarrow>
   Username x = Username y \<Longrightarrow> x = y"
  by (auto simp: distinct_map dest: inj_onD)

lemma distinct_snoc_username:
  "distinct (map Username xs) \<Longrightarrow> \<forall>x\<in>set xs. Username x \<noteq> Username y \<Longrightarrow>
   distinct (map Username (xs @ [y]))"
  by (induction xs) auto

lemma active_entries:
  "SyncUsers_active (reconciler us) as w = (None, s', w') \<Longrightarrow>
   map_of (users s') k = Some x \<Longrightarrow>
   map_of us k = Some x \<or>
   k = Username x \<and> x \<in> set (sso_users (sso w')) \<and> UserEmail x \<in> PrimaryEmail ` set as"
proof (induction as arbitrary: us w)
  case Nil
  then show ?case by auto
next
  case (Cons u as)
  from Cons.prems(1) obtain y w2 where
    r: "SyncUsers_active (reconciler (AList.update (Username y) y us)) as w2 = (None, s', w')" and
    y: "UserEmail y = PrimaryEmail u" "y \<in> set (sso_users (sso w2))"
    by (rule active_step)
  from active_created [OF r] y(2) have y': "y \<in> set (sso_users (sso w'))" by auto
  from Cons.IH [OF r Cons.prems(2)] y y' show ?case
    by (auto simp: update_conv' split: if_splits)
qed

lemma active_covers:
  "SyncUsers_active (reconciler us) as w = (None, s', w') \<Longrightarrow>
   distinct (map Username (sso_users (sso w))) \<Longrightarrow>
   \<forall>k x. map_of us k = Some x \<longrightarrow> k = Username x \<and> x \<in> set (sso_users (sso w)) \<Longrightarrow>
   (\<forall>k x. map_of us k = Some x \<longrightarrow> map_of (users s') k = Some x) \<and>
   (\<forall>a\<in>set as. \<exists>x. map_of (users s') (Username x) = Some x \<and> UserEmail x = PrimaryEmail a)"
proof (induction as arbitrary: us w)
  case Nil
  then show ?case by auto
next
  case (Cons u as)
  from Cons.prems(1) obtain y w2 where
    r: "SyncUsers_active (reconciler (AList.update (Username y) y us)) as w2 = (None, s', w')" and
    y: "UserEmail y = PrimaryEmail u" "y \<in> set (sso_users (sso w2))" and
    w2: "sso_users (sso w2) = sso_users (sso w) \<or>
         sso_users (sso w2) = sso_users (sso w) @ [y] \<and>
         (\<forall>x\<in>set (sso_users (sso w)). Username x \<noteq> Username y)"
    by (rule active_step)
  from w2 Cons.prems(2) have d2: "distinct (map Username (sso_users (sso w2)))"
    by (elim disjE conjE) (simp_all only: distinct_snoc_username)
  from w2 have sub: "set (sso_users (sso w)) \<subseteq> set (sso_users (sso w2))" by auto
  have old: "map_of (AList.update (Username y) y us) k = Some x" if "map_of us k = Some x" for k x
  proof (cases "k = Username y")
    case True
    from that Cons.prems(3) have "k = Username x" "x \<in> set (sso_users (sso w))" by auto
    with sub True d2 y(2) have "x = y" by (auto intro: inj_usernames)
    with True show ?thesis by (simp add: update_conv')
  next
    case False
    with that show ?thesis by (simp add: update_conv')
  qed
  have wf: "\<forall>k x. map_of (AList.update (Username y) y us) k = Some x \<longrightarrow>
              k = Username x \<and> x \<in> set (sso_users (sso w2))"
    using Cons.prems(3) sub y(2) by (auto simp: update_conv' split: if_splits)
  from Cons.IH [OF r d2 wf] have
    keep: "\<forall>k x. map_of (AList.update (Username y) y us) k = Some x \<longrightarrow>
             map_of (users s') k = Some x" and
    cov: "\<forall>a\<in>set as. \<exists>x. map_of (users s') (Username x) = Some x \<and> UserEmail x = PrimaryEmail a"
    by blast+
  from keep have "map_of (users s') (Username y) = Some y" by (simp add: update_conv')
  with y(1) have "\<exists>x. map_of (users s') (Username x) = Some x \<and> UserEmail x = PrimaryEmail u"
    by blast
  with cov keep old show ?case by auto
qed

lemma inj_emails:
  "distinct (map UserEmail xs) \<Longrightarrow> x \<in> set xs \<Longrightarrow> y \<in> set xs \<Longrightarrow>
   UserEmail x = UserEmail y \<Longrightarrow> x = y"
  by (auto simp: distinct_map dest: inj_onD)

lemma no_faults_next [simp]: "no_faults w \<Longrightarrow> next_fault w = None"
  by (auto simp: no_faults_def next_fault_def split: list.splits option.splits)

lemma no_faults_after [simp]: "no_faults w \<Longrightarrow> no_faults (after w evs)"
  by (auto simp: no_faults_def dest: in_set_dropD)

lemma deleted_removes:
  "SyncUsers_deleted (reconciler us) ds w = (None, w') \<Longrightarrow> no_faults w \<Longrightarrow>
   distinct (map UserEmail (sso_users (sso w))) \<Longrightarrow>
   \<forall>d\<in>set ds. \<forall>x\<in>set (sso_users (sso w')). UserEmail x \<noteq> PrimaryEmail d"
proof (induction ds arbitrary: w)
  case Nil
  then show ?case by simp
next
  case (Cons u ds)
  let ?e = "PrimaryEmail u"
  show ?case
  proof (cases "find (\<lambda>x. UserEmail x = ?e) (sso_users (sso w))")
    case None
    with Cons.prems have r: "SyncUsers_deleted (reconciler us) ds
        (after w [(CallFindUserByEmail ?e, Some ErrUserNotFound)]) = (None, w')"
      by (simp add: target_calls)
    from None have n: "\<forall>x\<in>set (sso_users (sso w)). UserEmail x \<noteq> ?e"
      by (auto simp: find_None_iff)
    from deleted_filter [OF r] n have "\<forall>x\<in>set (sso_users (sso w')). UserEmail x \<noteq> ?e"
      by auto
    moreover from Cons.IH [OF r] Cons.prems
    have "\<forall>d\<in>set ds. \<forall>x\<in>set (sso_users (sso w')). UserEmail x \<noteq> PrimaryEmail d" by simp
    ultimately show ?thesis by simp
  next
    case (Some uu)
    define w2 where "w2 = after (after w [(CallFindUserByEmail ?e, None)]) [(CallDeleteUser uu, None)]"
    from Some Cons.prems have r: "SyncUsers_deleted (reconciler us) ds w2 = (None, w')"
      by (simp add: target_calls w2_def)
    have u2: "sso_users (sso w2) = filter (\<lambda>x. Username x \<noteq> Username uu) (sso_users (sso w))"
      by (simp add: w2_def)
    from Some have uu: "uu \<in> set (sso_users (sso w))" "UserEmail uu = ?e"
      by (auto dest: find_SomeD)
    have n: "\<forall>x\<in>set (sso_users (sso w2)). UserEmail x \<noteq> ?e"
    proof
      fix x assume x: "x \<in> set (sso_users (sso w2))"
      show "UserEmail x \<noteq> ?e"
      proof
        assume "UserEmail x = ?e"
        with x uu u2 Cons.prems(3) have "x = uu" by (auto intro: inj_emails)
        with x u2 show False by simp
      qed
    qed
    from deleted_filter [OF r] n have "\<forall>x\<in>set (sso_users (sso w')). UserEmail x \<noteq> ?e"
      by auto
    moreover from Cons.prems(3) u2 have "distinct (map UserEmail (sso_users (sso w2)))"
      by (simp add: distinct_map_filter)
    with Cons.IH [OF r] Cons.prems(2)
    have "\<forall>d\<in>set ds. \<forall>x\<in>set (sso_users (sso w')). UserEmail x \<noteq> PrimaryEmail d"
      by (simp add: w2_def)
    ultimately show ?thesis by simp
  qed
qed

lemma active_present:
  "SyncUsers_active (reconciler us) as w = (None, s', w') \<Longrightarrow>
   \<forall>a\<in>set as. \<exists>x\<in>set (sso_users (sso w')). UserEmail x = PrimaryEmail a"
proof (induction as arbitrary: us w)
  case Nil
  then show ?case by simp
next
  case (Cons u as)
  from Cons.prems obtain y w2 where
    r: "SyncUsers_active (reconciler (AList.update (Username y) y us)) as w2 = (None, s', w')" and
    y: "UserEmail y = PrimaryEmail u" "y \<in> set (sso_users (sso w2))"
    by (rule active_step)
  from active_created [OF r] y(2) have "y \<in> set (sso_users (sso w'))" by auto
  with y(1) Cons.IH [OF r] show ?case by auto
qed

lemma deleted_all_absent:
  "no_faults w \<Longrightarrow> \<forall>d\<in>set ds. \<forall>x\<in>set (sso_users (sso w)). UserEmail x \<noteq> PrimaryEmail d \<Longrightarrow>
   SyncUsers_deleted (reconciler us) ds w =
     (None, after w (map (\<lambda>d. (CallFindUserByEmail (PrimaryEmail d), Some ErrUserNotFound)) ds))"
proof (induction ds arbitrary: w)
  case Nil
  then show ?case by simp
next
  case (Cons u ds)
  from Cons.prems(2) have "find (\<lambda>x. UserEmail x = PrimaryEmail u) (sso_users (sso w)) = None"
    by (auto simp: find_None_iff)
  with Cons.prems Cons.IH [of "after w [(CallFindUserByEmail (PrimaryEmail u), Some ErrUserNotFound)]"]
  show ?case by (simp add: target_calls after_after)
qed

lemma active_all_present:
  "no_faults w \<Longrightarrow> \<forall>a\<in>set as. \<exists>x\<in>set (sso_users (sso w)). UserEmail x = PrimaryEmail a \<Longrightarrow>
   \<exists>us'. SyncUsers_active (reconciler us) as w =
     (None, reconciler us', after w (map (\<lambda>a. (CallFindUserByEmail (PrimaryEmail a), None)) as))"
proof (induction as arbitrary: us w)
  case Nil
  then show ?case by auto
next
  case (Cons u as)
  from Cons.prems(2) obtain uu where
    "find (\<lambda>x. UserEmail x = PrimaryEmail u) (sso_users (sso w)) = Some uu"
    by (cases "find (\<lambda>x. UserEmail x = PrimaryEmail u) (sso_users (sso w))")
       (auto simp: find_None_iff)
  with Cons.prems
    Cons.IH [of "after w [(CallFindUserByEmail (PrimaryEmail u), None)]"
                "AList.update (Username uu) uu us"]
  show ?case by (simp add: target_calls after_after)
qed


lemma replay_lookups [simp]:
  "replay (map (\<lambda>d. (CallFindUserByEmail (f d), g d)) xs) d = d"
proof (induction xs)
  case Nil
  show ?case by simp
next
  case (Cons x xs)
  then show ?case by (cases "g x") simp_all
qed


lemmas concrete_defs = world_ok_def world_ok_synced_def alice_def bob_def sso_bob_def sso_alice_def
  source_port_def target_port_def port_def pointer_result_def error_result_def NewUser_def
  NewGroup_def reconciler_def

lemma world_ok_run:
  "SyncUsers (reconciler []) world_ok =
     (Return None, reconciler [(''alice@x.com'', sso_alice)], world_ok_synced)"
  by (simp add: SyncUsers_def concrete_defs)


lemmas concrete_defs2 = concrete_defs world_mixed_def world_mixed_synced_def world_readded_def
  sso_al_def world_shadow_def



text \<open>
  C2. In a successful run of \<^verbatim>\<open>SyncUsers\<close>, take any principal \<open>u\<close> of the list of deleted
  users. The loop reaches \<open>u\<close> in some world \<open>w1\<close> and gets past it into \<open>w2\<close> without
  leaving. If the lookup by the primary email of \<open>u\<close> yields a counterpart \<open>uu\<close> (a user
  of the target with that email), the two calls of this turn are the lookup and a
  \<^verbatim>\<open>DeleteUser\<close> of \<open>uu\<close> that succeeds, after which no user of the target has the
  username of \<open>uu\<close>; at the end of the run that username is only there again if it is the
  primary email of an active user. If the lookup yields no counterpart, the only call of
  this turn is the lookup and the target directory is unchanged: the principal is skipped
  without an error.
\<close>

theorem deleted_counterpart_is_deleted:
  assumes "SyncUsers (reconciler us) w = (Return None, s', w')"
    and "deleted_users w = pre @ u # post"
  shows "\<exists>w1 w2.
     SyncUsers_deleted (reconciler us) pre (snd (GetDeletedUsers source_port w)) = (None, w1) \<and>
     SyncUsers_deleted (reconciler us) (pre @ [u]) (snd (GetDeletedUsers source_port w)) = (None, w2) \<and>
     (case fst (fst (FindUserByEmail target_port (PrimaryEmail u) w1)) of
        Some uu \<Rightarrow>
          uu \<in> set (sso_users (sso w1)) \<and> UserEmail uu = PrimaryEmail u \<and>
          trace w2 = trace w1 @
            [(CallFindUserByEmail (PrimaryEmail u), None), (CallDeleteUser uu, None)] \<and>
          Username uu \<notin> Username ` set (sso_users (sso w2)) \<and>
          (Username uu \<in> Username ` set (sso_users (sso w')) \<longrightarrow>
             Username uu \<in> PrimaryEmail ` set (google_users w))
      | None \<Rightarrow>
          (\<exists>e. trace w2 = trace w1 @ [(CallFindUserByEmail (PrimaryEmail u), Some e)]) \<and>
          sso w2 = sso w1)"
proof -
  from assms(1) obtain wd where
    f: "next_fault w = None" and
    d: "SyncUsers_deleted (reconciler us) (deleted_users w) (after w [(CallGetDeletedUsers, None)]) =
       (None, wd)" and
    a: "SyncUsers_active (reconciler us) (google_users w) (after wd [(CallGetUsers, None)]) =
       (None, s', w')"
    by (rule SyncUsers_success)
  define w0 where "w0 = after w [(CallGetDeletedUsers, None)]"
  have w0: "snd (GetDeletedUsers source_port w) = w0"
    using f by (simp add: source_calls w0_def)
  obtain r1 w1 where 1: "SyncUsers_deleted (reconciler us) pre w0 = (r1, w1)"
    by (cases "SyncUsers_deleted (reconciler us) pre w0")
  obtain r2 w2 where 2: "SyncUsers_deleted (reconciler us) [u] w1 = (r2, w2)"
    by (cases "SyncUsers_deleted (reconciler us) [u] w1")
  from d assms(2) have "SyncUsers_deleted (reconciler us) (pre @ [u] @ post) w0 = (None, wd)"
    by (simp add: w0_def)
  with 1 2 have r: "r1 = None" "r2 = None" and
    3: "SyncUsers_deleted (reconciler us) post w2 = (None, wd)"
    by (auto simp only: deleted_append prod.case split: option.splits)
  from 1 2 r have 12: "SyncUsers_deleted (reconciler us) (pre @ [u]) w0 = (None, w2)"
    by (simp only: deleted_append prod.case option.case)
  note t = deleted_turn [OF 2 [unfolded r]]
  have later: "Username x \<in> Username ` set (sso_users (sso w')) \<Longrightarrow>
      Username x \<notin> Username ` set (sso_users (sso w2)) \<Longrightarrow>
      Username x \<in> PrimaryEmail ` set (google_users w)" for x
  proof -
    assume in': "Username x \<in> Username ` set (sso_users (sso w'))"
      and out: "Username x \<notin> Username ` set (sso_users (sso w2))"
    from deleted_filter [OF 3] obtain P where "sso_users (sso wd) = filter P (sso_users (sso w2))"
      by blast
    with out have outd: "Username x \<notin> Username ` set (sso_users (sso wd))" by auto
    from active_created [OF a] obtain cs where
      cs: "sso_users (sso w') = sso_users (sso wd) @ cs"
        "\<forall>c\<in>set cs. \<exists>a\<in>set (google_users w).
            c = NewUser (GivenName a) (FamilyName a) (PrimaryEmail a)"
      by auto
    from in' outd cs(1) obtain c where "c \<in> set cs" "Username c = Username x" by auto
    with cs(2) obtain a where "a \<in> set (google_users w)" "Username x = PrimaryEmail a"
      by fastforce
    then show ?thesis by blast
  qed
  show ?thesis
    apply (rule exI [of _ w1], rule exI [of _ w2])
    using 1 12 r t later
    by (auto simp: w0 split: option.splits)
qed

theorem deleted_counterpart_is_deleted_witness:
  "SyncUsers (reconciler []) world_ok =
     (Return None, reconciler [(''alice@x.com'', sso_alice)], world_ok_synced) \<and>
   deleted_users world_ok = [] @ bob # [] \<and>
   (\<exists>w1 w2.
     SyncUsers_deleted (reconciler []) [] (snd (GetDeletedUsers source_port world_ok)) = (None, w1) \<and>
     SyncUsers_deleted (reconciler []) ([] @ [bob]) (snd (GetDeletedUsers source_port world_ok)) = (None, w2) \<and>
     (case fst (fst (FindUserByEmail target_port (PrimaryEmail bob) w1)) of
        Some uu \<Rightarrow>
          uu \<in> set (sso_users (sso w1)) \<and> UserEmail uu = PrimaryEmail bob \<and>
          trace w2 = trace w1 @
            [(CallFindUserByEmail (PrimaryEmail bob), None), (CallDeleteUser uu, None)] \<and>
          Username uu \<notin> Username ` set (sso_users (sso w2)) \<and>
          (Username uu \<in> Username ` set (sso_users (sso world_ok_synced)) \<longrightarrow>
             Username uu \<in> PrimaryEmail ` set (google_users world_ok))
      | None \<Rightarrow>
          (\<exists>e. trace w2 = trace w1 @ [(CallFindUserByEmail (PrimaryEmail bob), Some e)]) \<and>
          sso w2 = sso w1)) \<and>
   fst (fst (FindUserByEmail target_port (PrimaryEmail bob)
     (snd (GetDeletedUsers source_port world_ok)))) = Some sso_bob"
proof -
  have h2: "deleted_users world_ok = [] @ bob # []" by (simp add: world_ok_def)
  have f: "fst (fst (FindUserByEmail target_port (PrimaryEmail bob)
     (snd (GetDeletedUsers source_port world_ok)))) = Some sso_bob"
    by (simp add: concrete_defs)
  from deleted_counterpart_is_deleted [OF world_ok_run h2] world_ok_run h2 f show ?thesis by blast
qed






text \<open>
  C5, as stated, fails: a principal that the source lists both as deleted and as active
  is created by the first run, and deleted and created again by the second run.
\<close>

theorem second_run_deletes_and_creates:
  "fst (SyncUsers (reconciler []) world_readded) = Return None \<and>
   fst (SyncUsers (reconciler []) (snd (snd (SyncUsers (reconciler []) world_readded)))) =
     Return None \<and>
   drop (length (trace (snd (snd (SyncUsers (reconciler []) world_readded)))))
     (trace (snd (snd (SyncUsers (reconciler [])
        (snd (snd (SyncUsers (reconciler []) world_readded))))))) =
     [(CallGetDeletedUsers, None), (CallFindUserByEmail ''bob@x.com'', None),
      (CallDeleteUser sso_bob, None), (CallGetUsers, None),
      (CallFindUserByEmail ''bob@x.com'', Some ErrUserNotFound),
      (CallCreateUser sso_bob, None)]"
  by (simp add: SyncUsers_def concrete_defs2)


text \<open>
  Two more situations in which a second run changes the target, although the first one
  succeeded and deleted and active principals are apart. In the first, the lookup of a
  deleted principal fails during the first run and is taken for "no counterpart"; the
  second run finds the counterpart and deletes it. In the second, two users of the target
  share the email of a deleted principal; each run deletes the one the lookup yields.
\<close>

lemma second_run_after_swallowed_lookup:
  "fst (SyncUsers (reconciler []) world_swallowed) = Return None \<and>
   fst (SyncUsers (reconciler []) (snd (snd (SyncUsers (reconciler []) world_swallowed)))) =
     Return None \<and>
   (CallDeleteUser sso_bob, None) \<in>
     set (added (snd (snd (SyncUsers (reconciler []) world_swallowed)))
       (snd (snd (SyncUsers (reconciler [])
          (snd (snd (SyncUsers (reconciler []) world_swallowed)))))))"
  by (simp add: SyncUsers_def concrete_defs2 world_swallowed_def added_def)

lemma second_run_with_shared_email:
  "fst (SyncUsers (reconciler []) world_shared_email) = Return None \<and>
   fst (SyncUsers (reconciler []) (snd (snd (SyncUsers (reconciler []) world_shared_email)))) =
     Return None \<and>
   (CallDeleteUser sso_bobby, None) \<in>
     set (added (snd (snd (SyncUsers (reconciler []) world_shared_email)))
       (snd (snd (SyncUsers (reconciler [])
          (snd (snd (SyncUsers (reconciler []) world_shared_email)))))))"
  by (simp add: SyncUsers_def concrete_defs2 world_shared_email_def sso_bobby_def added_def)


text \<open>
  C5, amended. When no call fails, no deleted principal has the primary email of an
  active one, and no two users of the target share an email, a second run of
  \<^verbatim>\<open>SyncUsers\<close> after a successful first one (same source, the target as the first run left
  it) succeeds, makes only the two list fetches and one lookup per listed principal, and
  leaves the target directory as it is: no create and no delete.
\<close>

theorem second_run_only_looks_up:
  assumes nf: "no_faults w"
    and run1: "SyncUsers (reconciler us) w = (Return None, s1, w1)"
    and disj: "PrimaryEmail ` set (deleted_users w) \<inter> PrimaryEmail ` set (google_users w) = {}"
    and dist: "distinct (map UserEmail (sso_users (sso w)))"
  shows "\<exists>s2 w2. SyncUsers (reconciler us2) w1 = (Return None, s2, w2) \<and> sso w2 = sso w1 \<and>
           trace w2 = trace w1 @
             (CallGetDeletedUsers, None) #
             map (\<lambda>d. (CallFindUserByEmail (PrimaryEmail d), Some ErrUserNotFound)) (deleted_users w) @
             (CallGetUsers, None) #
             map (\<lambda>a. (CallFindUserByEmail (PrimaryEmail a), None)) (google_users w)"
proof -
  note ph = SyncUsers_phases [OF run1]
  from SyncUsers_reaches [OF run1] obtain evs where w1: "w1 = after w evs"
    by (auto simp: reaches_def)
  with nf have nf1: "no_faults w1" by simp
  from w1 have src: "deleted_users w1 = deleted_users w" "google_users w1 = google_users w"
    by simp_all
  obtain wd where d: "SyncUsers_deleted (reconciler us) (deleted_users w) (deleted_start w) = (None, wd)"
    using ph(1) by (cases "SyncUsers_deleted (reconciler us) (deleted_users w) (deleted_start w)") auto
  have ds: "deleted_start w = after w [(CallGetDeletedUsers, None)]"
    using nf by (simp add: deleted_start_def source_calls)
  from deleted_reaches [OF d] obtain evd where wd: "wd = after (deleted_start w) evd"
    by (auto simp: reaches_def)
  with nf ds have "next_fault wd = None" by simp
  then have as: "sso (active_start us w) = sso wd"
    using d by (simp add: active_start_def source_calls)
  from deleted_removes [OF d] nf dist
  have "\<forall>d\<in>set (deleted_users w). \<forall>x\<in>set (sso_users (sso wd)). UserEmail x \<noteq> PrimaryEmail d"
    by (simp add: ds)
  moreover from active_created [OF ph(2)] obtain cs where
    cs: "sso_users (sso w1) = sso_users (sso wd) @ cs"
      "\<forall>c\<in>set cs. \<exists>a\<in>set (google_users w).
         c = NewUser (GivenName a) (FamilyName a) (PrimaryEmail a)"
    by (auto simp: as)
  have "\<forall>d\<in>set (deleted_users w). \<forall>c\<in>set cs. UserEmail c \<noteq> PrimaryEmail d"
  proof (intro ballI notI)
    fix d c assume dc: "d \<in> set (deleted_users w)" "c \<in> set cs" "UserEmail c = PrimaryEmail d"
    with cs(2) obtain a where "a \<in> set (google_users w)" "PrimaryEmail a = PrimaryEmail d"
      by fastforce
    with dc(1) disj show False by (metis IntI imageI empty_iff)
  qed
  ultimately have a:
    "\<forall>d\<in>set (deleted_users w). \<forall>x\<in>set (sso_users (sso w1)). UserEmail x \<noteq> PrimaryEmail d"
    using cs(1) by auto
  have b: "\<forall>a\<in>set (google_users w). \<exists>x\<in>set (sso_users (sso w1)). UserEmail x = PrimaryEmail a"
    by (rule active_present [OF ph(2)])
  define e1 where "e1 = (CallGetDeletedUsers, None :: error option) #
    map (\<lambda>d. (CallFindUserByEmail (PrimaryEmail d), Some ErrUserNotFound)) (deleted_users w)"
  have 1: "SyncUsers_deleted (reconciler us2) (deleted_users w)
             (after w1 [(CallGetDeletedUsers, None)]) = (None, after w1 e1)"
    using deleted_all_absent [of "after w1 [(CallGetDeletedUsers, None)]" "deleted_users w" us2]
      nf1 a by (simp add: after_after e1_def)
  have s1: "sso (after w1 e1) = sso w1" by (simp add: e1_def)
  have b2: "\<forall>a\<in>set (google_users w).
      \<exists>x\<in>set (sso_users (sso (after (after w1 e1) [(CallGetUsers, None)]))).
        UserEmail x = PrimaryEmail a"
    using b s1 by simp
  have nf2: "no_faults (after (after w1 e1) [(CallGetUsers, None)])"
    using nf1 by simp
  from active_all_present [OF nf2 b2, of us2]
  obtain us' where 2: "SyncUsers_active (reconciler us2) (google_users w)
      (after (after w1 e1) [(CallGetUsers, None)]) =
      (None, reconciler us',
       after w1 (e1 @ (CallGetUsers, None) #
         map (\<lambda>a. (CallFindUserByEmail (PrimaryEmail a), None)) (google_users w)))"
    by (auto simp only: after_after append.simps append_assoc)
  have "SyncUsers (reconciler us2) w1 =
      (Return None, reconciler us',
       after w1 (e1 @ (CallGetUsers, None) #
         map (\<lambda>a. (CallFindUserByEmail (PrimaryEmail a), None)) (google_users w)))"
    using nf1 1 2 by (simp add: SyncUsers_def source_calls src)
  then show ?thesis
    by (simp add: e1_def replay_append)
qed

theorem second_run_only_looks_up_witness:
  "no_faults world_ok \<and>
   SyncUsers (reconciler []) world_ok =
     (Return None, reconciler [(''alice@x.com'', sso_alice)], world_ok_synced) \<and>
   PrimaryEmail ` set (deleted_users world_ok) \<inter> PrimaryEmail ` set (google_users world_ok) = {} \<and>
   distinct (map UserEmail (sso_users (sso world_ok))) \<and>
   (\<exists>s2 w2. SyncUsers (reconciler []) world_ok_synced = (Return None, s2, w2) \<and>
      sso w2 = sso world_ok_synced \<and>
      trace w2 = trace world_ok_synced @
        (CallGetDeletedUsers, None) #
        map (\<lambda>d. (CallFindUserByEmail (PrimaryEmail d), Some ErrUserNotFound))
          (deleted_users world_ok) @
        (CallGetUsers, None) #
        map (\<lambda>a. (CallFindUserByEmail (PrimaryEmail a), None)) (google_users world_ok))"
proof -
  have h: "no_faults world_ok"
    "PrimaryEmail ` set (deleted_users world_ok) \<inter> PrimaryEmail ` set (google_users world_ok) = {}"
    "distinct (map UserEmail (sso_users (sso world_ok)))"
    by (simp_all add: no_faults_def concrete_defs2)
  from second_run_only_looks_up [OF h(1) world_ok_run h(2,3), of "[]"] h world_ok_run show ?thesis by blast
qed


text \<open>
  C8, as stated, fails: a lookup that fails transiently makes the run create a second
  user for the same email; the older user exists in the target and has the email of an
  active source principal, but is not in the table.
\<close>

theorem correlated_principal_missing_from_table:
  "fst (SyncUsers (reconciler []) world_shadow) = Return None \<and>
   sso_al \<in> set (sso_users (sso (snd (snd (SyncUsers (reconciler []) world_shadow))))) \<and>
   UserEmail sso_al = PrimaryEmail alice \<and> alice \<in> set (google_users world_shadow) \<and>
   sso_al \<notin> ran (map_of (users (fst (snd (SyncUsers (reconciler []) world_shadow)))))"
  by (simp add: SyncUsers_def concrete_defs2)


text \<open>
  C8, amended. After a successful run of \<^verbatim>\<open>SyncUsers\<close> from an empty table: every entry
  of the table is keyed by the username of its user, that user exists in the target and
  has the primary email of an active source principal (so a user of the target that
  matches no active principal is not in the table); when usernames are unique in the
  target, every active source principal has an entry; and when, moreover, no two users of
  the target share an email after the run, the table holds exactly the users of the target
  whose email is that of an active source principal.
\<close>

theorem correlation_table_contents:
  assumes "SyncUsers (reconciler []) w = (Return None, s', w')"
  shows "(\<forall>k x. map_of (users s') k = Some x \<longrightarrow>
            k = Username x \<and> x \<in> set (sso_users (sso w')) \<and>
            UserEmail x \<in> PrimaryEmail ` set (google_users w)) \<and>
         (distinct (map Username (sso_users (sso w))) \<longrightarrow>
            (\<forall>a\<in>set (google_users w).
               \<exists>x. map_of (users s') (Username x) = Some x \<and> UserEmail x = PrimaryEmail a)) \<and>
         (distinct (map Username (sso_users (sso w))) \<longrightarrow>
          distinct (map UserEmail (sso_users (sso w'))) \<longrightarrow>
            ran (map_of (users s')) =
              {x \<in> set (sso_users (sso w')). UserEmail x \<in> PrimaryEmail ` set (google_users w)})"
proof -
  note ph = SyncUsers_phases [OF assms]
  have i: "k = Username x \<and> x \<in> set (sso_users (sso w')) \<and>
            UserEmail x \<in> PrimaryEmail ` set (google_users w)"
    if "map_of (users s') k = Some x" for k x
    using active_entries [OF ph(2) that] by simp
  have ii: "\<forall>a\<in>set (google_users w).
               \<exists>x. map_of (users s') (Username x) = Some x \<and> UserEmail x = PrimaryEmail a"
    if d: "distinct (map Username (sso_users (sso w)))"
  proof -
    from ph(3) d have "distinct (map Username (sso_users (sso (active_start [] w))))"
      by (auto simp: distinct_map_filter)
    from active_covers [OF ph(2) this] show ?thesis by simp
  qed
  have iii: "ran (map_of (users s')) =
              {x \<in> set (sso_users (sso w')). UserEmail x \<in> PrimaryEmail ` set (google_users w)}"
    if d: "distinct (map Username (sso_users (sso w)))"
      and e: "distinct (map UserEmail (sso_users (sso w')))"
  proof (intro set_eqI iffI)
    fix x
    assume "x \<in> ran (map_of (users s'))"
    then obtain k where "map_of (users s') k = Some x" by (auto simp: ran_def)
    with i show "x \<in> {x \<in> set (sso_users (sso w')).
                      UserEmail x \<in> PrimaryEmail ` set (google_users w)}"
      by blast
  next
    fix x
    assume "x \<in> {x \<in> set (sso_users (sso w')).
                   UserEmail x \<in> PrimaryEmail ` set (google_users w)}"
    then obtain a where x: "x \<in> set (sso_users (sso w'))" "a \<in> set (google_users w)"
      "UserEmail x = PrimaryEmail a" by auto
    from ii [OF d] x(2) obtain y where
      y: "map_of (users s') (Username y) = Some y" "UserEmail y = PrimaryEmail a" by blast
    from i [OF y(1)] have "y \<in> set (sso_users (sso w'))" by simp
    with e x y(2) have "x = y" by (auto intro: inj_emails)
    with y(1) show "x \<in> ran (map_of (users s'))" by (auto simp: ran_def)
  qed
  from i ii iii show ?thesis by blast
qed


theorem correlation_table_contents_witness:
  "SyncUsers (reconciler []) world_ok =
     (Return None, reconciler [(''alice@x.com'', sso_alice)], world_ok_synced) \<and>
   distinct (map Username (sso_users (sso world_ok))) \<and>
   distinct (map UserEmail (sso_users (sso world_ok_synced))) \<and>
   map_of [(''alice@x.com'', sso_alice)] ''alice@x.com'' = Some sso_alice \<and>
   alice \<in> set (google_users world_ok) \<and>
   (''alice@x.com'' = Username sso_alice \<and> sso_alice \<in> set (sso_users (sso world_ok_synced)) \<and>
    UserEmail sso_alice \<in> PrimaryEmail ` set (google_users world_ok)) \<and>
   (\<exists>x. map_of [(''alice@x.com'', sso_alice)] (Username x) = Some x \<and>
        UserEmail x = PrimaryEmail alice) \<and>
   ran (map_of [(''alice@x.com'', sso_alice)]) =
     {x \<in> set (sso_users (sso world_ok_synced)).
        UserEmail x \<in> PrimaryEmail ` set (google_users world_ok)}"
proof -
  have h: "distinct (map Username (sso_users (sso world_ok)))"
    "distinct (map UserEmail (sso_users (sso world_ok_synced)))"
    "map_of [(''alice@x.com'', sso_alice)] ''alice@x.com'' = Some sso_alice"
    "alice \<in> set (google_users world_ok)"
    by (simp_all add: concrete_defs2)
  from correlation_table_contents [OF world_ok_run] h world_ok_run show ?thesis
    by (simp only: reconciler_simps)
qed


section \<open>SyncGroups on the two directories\<close>

lemma dom_map_of_update: "dom (map_of (AList.update k v al)) = insert k (dom (map_of al))"
  by (simp add: update_conv')

lemma memberList_of_keys:
  "dom (map_of (memberList_of us ms ml)) =
   dom (map_of ml) \<union> (Email ` set ms \<inter> dom (map_of us))"
proof (induction ms arbitrary: ml)
  case Nil
  show ?case by simp
next
  case (Cons m ms)
  show ?case
  proof (cases "map_of us (Email m)")
    case None
    then have "Email m \<notin> dom (map_of us)" by (simp add: domIff)
    with None show ?thesis by (simp add: Cons.IH)
  next
    case (Some a)
    then have "Email m \<in> dom (map_of us)" by (simp add: domIff)
    with Some show ?thesis by (simp add: Cons.IH dom_map_of_update)
  qed
qed

lemma groups_append:
  "SyncGroups_groups s ag (xs @ ys) cg w =
     (case SyncGroups_groups s ag xs cg w of
        (None, cg1, w1) \<Rightarrow> SyncGroups_groups s ag ys cg1 w1
      | (Some r, cg1, w1) \<Rightarrow> (Some r, cg1, w1))"
  by (induction xs arbitrary: cg w) (simp_all split: prod.split option.split sum.split)

lemma users_not_nil:
  "SyncGroups_users s grp ml xs w = (Some r, w') \<Longrightarrow> r \<noteq> Return None"
  by (induction s grp ml xs w rule: SyncGroups_users.induct)
     (auto split: prod.splits option.splits sum.splits if_splits)

lemma cleanup_not_nil:
  "SyncGroups_cleanup s cg xs w = (Some r, w') \<Longrightarrow> r \<noteq> Return None"
  by (induction s cg xs w rule: SyncGroups_cleanup.induct)
     (auto split: prod.splits option.splits)

lemma correlate_not_nil:
  "SyncGroups_correlate s ag g cg w = (Inl r, w') \<Longrightarrow> r \<noteq> Return None"
  by (auto simp: SyncGroups_correlate_def split: prod.splits option.splits)

lemma groups_not_nil:
  "SyncGroups_groups s ag gs cg w = (Some r, cg', w') \<Longrightarrow> r \<noteq> Return None"
proof (induction gs arbitrary: cg w)
  case Nil
  then show ?case by simp
next
  case (Cons g gs)
  then show ?case
    by (auto split: prod.splits option.splits sum.splits
          dest: users_not_nil correlate_not_nil)
qed

lemma members_add [simp]:
  "set (sso_members (effect (CallAddUserToGroup u g) d)) =
     insert (Username u, DisplayName g) (set (sso_members d))"
  "sso_users (effect (CallAddUserToGroup u g) d) = sso_users d"
  "sso_groups (effect (CallAddUserToGroup u g) d) = sso_groups d"
  by auto

lemma members_remove [simp]:
  "set (sso_members (effect (CallRemoveUserFromGroup u g) d)) =
     set (sso_members d) - {(Username u, DisplayName g)}"
  "sso_users (effect (CallRemoveUserFromGroup u g) d) = sso_users d"
  "sso_groups (effect (CallRemoveUserFromGroup u g) d) = sso_groups d"
  by auto

lemma users_step:
  assumes "SyncGroups_users (reconciler T) grp ml ((k, u) # xs) w = (None, w')"
  shows "\<exists>w2. SyncGroups_users (reconciler T) grp ml xs w2 = (None, w') \<and>
     sso_users (sso w2) = sso_users (sso w) \<and> sso_groups (sso w2) = sso_groups (sso w) \<and>
     set (sso_members (sso w2)) =
       (if Username u \<in> dom (map_of ml)
        then insert (Username u, DisplayName grp) (set (sso_members (sso w)))
        else set (sso_members (sso w)) - {(Username u, DisplayName grp)})"
proof -
  let ?p = "(Username u, DisplayName grp)"
  let ?w1 = "after w [(CallIsUserInGroup u grp, None)]"
  let ?wa = "after ?w1 [(CallAddUserToGroup u grp, None)]"
  let ?wr = "after ?w1 [(CallRemoveUserFromGroup u grp, None)]"
  from assms have f: "next_fault w = None"
    by (auto simp: target_calls split: option.splits)
  show ?thesis
  proof (cases "Username u \<in> dom (map_of ml)")
    case True
    then obtain m where m: "map_of ml (Username u) = Some m" by auto
    show ?thesis
    proof (cases "?p \<in> set (sso_members (sso w))")
      case True
      with assms f m have "SyncGroups_users (reconciler T) grp ml xs ?w1 = (None, w')"
        by (simp add: target_calls)
      with True m show ?thesis
        by (intro exI [of _ ?w1]) (auto simp: domI)
    next
      case False
      with assms f m have "SyncGroups_users (reconciler T) grp ml xs ?wa = (None, w')"
        by (auto simp: target_calls split: option.splits)
      with m show ?thesis
        by (intro exI [of _ ?wa]) (simp add: domI del: effect.simps(4,5))
    qed
  next
    case False
    then have m: "map_of ml (Username u) = None" by (simp add: domIff)
    show ?thesis
    proof (cases "?p \<in> set (sso_members (sso w))")
      case True
      with assms f m have "SyncGroups_users (reconciler T) grp ml xs ?wr = (None, w')"
        by (auto simp: target_calls split: option.splits)
      with False show ?thesis
        by (intro exI [of _ ?wr]) (simp del: effect.simps(4,5))
    next
      case notin: False
      with assms f m have "SyncGroups_users (reconciler T) grp ml xs ?w1 = (None, w')"
        by (simp add: target_calls)
      with False notin show ?thesis
        by (intro exI [of _ ?w1]) auto
    qed
  qed
qed

lemma users_members:
  "SyncGroups_users (reconciler T) grp ml xs w = (None, w') \<Longrightarrow>
   sso_users (sso w') = sso_users (sso w) \<and> sso_groups (sso w') = sso_groups (sso w) \<and>
   (\<forall>p. (p \<in> set (sso_members (sso w'))) =
      (if snd p = DisplayName grp \<and> fst p \<in> Username ` snd ` set xs
       then fst p \<in> dom (map_of ml) else p \<in> set (sso_members (sso w))))"
proof (induction xs arbitrary: w)
  case Nil
  then show ?case by simp
next
  case (Cons x xs)
  obtain k u where x: "x = (k, u)" by (cases x)
  from users_step [OF Cons.prems [unfolded x]] obtain w2 where
    r: "SyncGroups_users (reconciler T) grp ml xs w2 = (None, w')" and
    u2: "sso_users (sso w2) = sso_users (sso w)" "sso_groups (sso w2) = sso_groups (sso w)" and
    m2: "set (sso_members (sso w2)) =
          (if Username u \<in> dom (map_of ml)
           then insert (Username u, DisplayName grp) (set (sso_members (sso w)))
           else set (sso_members (sso w)) - {(Username u, DisplayName grp)})"
    by blast
  from Cons.IH [OF r] u2 m2 show ?case
    unfolding x by (auto split: if_splits)
qed

lemma NewGroup_name [simp]: "DisplayName (NewGroup n) = n"
  by (simp add: NewGroup_def)

lemma groups_create [simp]:
  "set (sso_groups (effect (CallCreateGroup g) d)) = insert g (set (sso_groups d))"
  "sso_users (effect (CallCreateGroup g) d) = sso_users d"
  "sso_members (effect (CallCreateGroup g) d) = sso_members d"
  by auto

lemma correlate_model:
  assumes "SyncGroups_correlate (reconciler T) ag g cg w = (Inr (cg1, grp), w1)"
    and "keyed_by_name ag"
  shows "DisplayName grp = Name g" "dom (map_of cg1) = insert (Name g) (dom (map_of cg))"
    "sso_users (sso w1) = sso_users (sso w)" "sso_members (sso w1) = sso_members (sso w)"
    "set (sso_groups (sso w1)) =
       (if Name g \<in> dom (map_of ag) then set (sso_groups (sso w))
        else insert (NewGroup (Name g)) (set (sso_groups (sso w))))"
    "reaches w None w1"
proof -
  show n: "DisplayName grp = Name g"
    using assms
    by (auto simp: SyncGroups_correlate_def target_calls keyed_by_name_def
          split: option.splits)
  have "cg1 = AList.update (DisplayName grp) grp cg"
    using assms(1)
    by (auto simp: SyncGroups_correlate_def target_calls split: option.splits)
  with n show "dom (map_of cg1) = insert (Name g) (dom (map_of cg))"
    by (simp add: dom_map_of_update)
  show "sso_users (sso w1) = sso_users (sso w)" "sso_members (sso w1) = sso_members (sso w)"
    "set (sso_groups (sso w1)) =
       (if Name g \<in> dom (map_of ag) then set (sso_groups (sso w))
        else insert (NewGroup (Name g)) (set (sso_groups (sso w))))"
    using assms
    by (auto simp: SyncGroups_correlate_def target_calls simp del: effect.simps(3)
          split: option.splits)
  from correlate_reaches [OF assms(1)] show "reaches w None w1" by simp
qed

lemma groups_turn:
  assumes run: "SyncGroups_groups (reconciler T) ag [g] cg w = (None, cg1, w1)"
    and ag: "keyed_by_name ag"
  shows "sso_users (sso w1) = sso_users (sso w)"
    "dom (map_of cg1) = insert (Name g) (dom (map_of cg))"
    "set (sso_groups (sso w1)) =
       (if Name g \<in> dom (map_of ag) then set (sso_groups (sso w))
        else insert (NewGroup (Name g)) (set (sso_groups (sso w))))"
    "\<forall>p. (p \<in> set (sso_members (sso w1))) =
       (if snd p = Name g \<and> fst p \<in> Username ` snd ` set T
        then fst p \<in> Email ` set (group_members w g) \<inter> dom (map_of T)
        else p \<in> set (sso_members (sso w)))"
proof -
  obtain x wc where c: "SyncGroups_correlate (reconciler T) ag g cg w = (x, wc)"
    by (cases "SyncGroups_correlate (reconciler T) ag g cg w")
  with run obtain cgc grp where x: "x = Inr (cgc, grp)"
    by (cases x) auto
  note m = correlate_model [OF c [unfolded x] ag]
  from run c x have f: "next_fault wc = None"
    by (auto simp: source_calls split: option.splits)
  from m(6) have gm: "group_members wc = group_members w" by (rule reaches_fields)
  let ?w2 = "after wc [(CallGetGroupMembers g, None)]"
  let ?ml = "memberList_of T (group_members w g) []"
  from run c x f gm have u: "SyncGroups_users (reconciler T) grp ?ml T ?w2 = (None, w1)"
    and cg1: "cg1 = cgc"
    by (auto simp: source_calls split: option.splits prod.splits)
  note um = users_members [OF u]
  show "sso_users (sso w1) = sso_users (sso w)" using um m by simp
  show "dom (map_of cg1) = insert (Name g) (dom (map_of cg))" using cg1 m by simp
  show "set (sso_groups (sso w1)) =
       (if Name g \<in> dom (map_of ag) then set (sso_groups (sso w))
        else insert (NewGroup (Name g)) (set (sso_groups (sso w))))"
    using um m by simp
  show "\<forall>p. (p \<in> set (sso_members (sso w1))) =
       (if snd p = Name g \<and> fst p \<in> Username ` snd ` set T
        then fst p \<in> Email ` set (group_members w g) \<inter> dom (map_of T)
        else p \<in> set (sso_members (sso w)))"
    using um m(1,4) by (simp add: memberList_of_keys)
qed

lemma groups_split:
  assumes "SyncGroups_groups s ag (xs @ ys) cg w = (None, cg', w')"
  obtains cg1 w1 where
    "SyncGroups_groups s ag xs cg w = (None, cg1, w1)"
    "SyncGroups_groups s ag ys cg1 w1 = (None, cg', w')"
proof -
  obtain r1 cg1 w1 where 1: "SyncGroups_groups s ag xs cg w = (r1, cg1, w1)"
    by (cases "SyncGroups_groups s ag xs cg w")
  with assms have "r1 = None" "SyncGroups_groups s ag ys cg1 w1 = (None, cg', w')"
    by (auto simp only: groups_append prod.case split: option.splits)
  with 1 that show thesis by blast
qed

lemma groups_model:
  "SyncGroups_groups (reconciler T) ag gs cg w = (None, cg', w') \<Longrightarrow> keyed_by_name ag \<Longrightarrow>
   sso_users (sso w') = sso_users (sso w) \<and>
   dom (map_of cg') = dom (map_of cg) \<union> Name ` set gs \<and>
   set (sso_groups (sso w')) =
     set (sso_groups (sso w)) \<union> NewGroup ` (Name ` set gs - dom (map_of ag)) \<and>
   (\<forall>p. snd p \<notin> Name ` set gs \<longrightarrow>
      (p \<in> set (sso_members (sso w'))) = (p \<in> set (sso_members (sso w))))"
proof (induction gs arbitrary: cg w)
  case Nil
  then show ?case by simp
next
  case (Cons g gs)
  from Cons.prems(1) have "SyncGroups_groups (reconciler T) ag ([g] @ gs) cg w = (None, cg', w')"
    by simp
  then obtain cg1 w1 where
    1: "SyncGroups_groups (reconciler T) ag [g] cg w = (None, cg1, w1)" and
    2: "SyncGroups_groups (reconciler T) ag gs cg1 w1 = (None, cg', w')"
    by (rule groups_split)
  note t = groups_turn [OF 1 Cons.prems(2)]
  note i = Cons.IH [OF 2 Cons.prems(2)]
  have "sso_users (sso w') = sso_users (sso w)" using t(1) i by simp
  moreover have "dom (map_of cg') = dom (map_of cg) \<union> Name ` set (g # gs)"
    using t(2) i by auto
  moreover have "set (sso_groups (sso w')) =
     set (sso_groups (sso w)) \<union> NewGroup ` (Name ` set (g # gs) - dom (map_of ag))"
    using t(3) i by (auto split: if_splits)
  moreover have "\<forall>p. snd p \<notin> Name ` set (g # gs) \<longrightarrow>
      (p \<in> set (sso_members (sso w'))) = (p \<in> set (sso_members (sso w)))"
    using t(4) i by auto
  ultimately show ?case by blast
qed

lemma groups_members:
  assumes run: "SyncGroups_groups (reconciler T) ag (pre @ g # post) cg w = (None, cg', w')"
    and ag: "keyed_by_name ag"
    and last: "Name g \<notin> Name ` set post"
    and T: "\<forall>(k, u)\<in>set T. k = Username u"
    and u: "(k, u) \<in> set T"
  shows "((Username u, Name g) \<in> set (sso_members (sso w'))) =
         (Username u \<in> Email ` set (group_members w g))"
proof -
  from run obtain cg1 w1 where
    1: "SyncGroups_groups (reconciler T) ag pre cg w = (None, cg1, w1)" and
    r: "SyncGroups_groups (reconciler T) ag ([g] @ post) cg1 w1 = (None, cg', w')"
    by (auto elim: groups_split)
  from r obtain cg2 w2 where
    2: "SyncGroups_groups (reconciler T) ag [g] cg1 w1 = (None, cg2, w2)" and
    3: "SyncGroups_groups (reconciler T) ag post cg2 w2 = (None, cg', w')"
    by (rule groups_split)
  from groups_reaches [OF 1] have gm: "group_members w1 = group_members w"
    by (rule reaches_fields)
  from u T have "k = Username u" by auto
  with u have d: "Username u \<in> dom (map_of T)"
    by (metis domIff fst_conv image_eqI map_of_eq_None_iff)
  from u have "Username u \<in> Username ` snd ` set T" by force
  with groups_turn(4) [OF 2 ag] d gm
  have "((Username u, Name g) \<in> set (sso_members (sso w2))) =
         (Username u \<in> Email ` set (group_members w g))"
    by simp
  with groups_model [OF 3 ag] last show ?thesis by simp
qed

lemma groups_delete [simp]:
  "sso_groups (effect (CallDeleteGroup g) d) =
     filter (\<lambda>x. DisplayName x \<noteq> DisplayName g) (sso_groups d)"
  "sso_members (effect (CallDeleteGroup g) d) =
     filter (\<lambda>p. snd p \<noteq> DisplayName g) (sso_members d)"
  "sso_users (effect (CallDeleteGroup g) d) = sso_users d"
  by simp_all

lemma cleanup_model:
  "SyncGroups_cleanup (reconciler T) cg xs w = (None, w') \<Longrightarrow>
   sso_users (sso w') = sso_users (sso w) \<and>
   set (sso_groups (sso w')) =
     {X \<in> set (sso_groups (sso w)).
        DisplayName X \<notin> DisplayName ` snd ` set xs - dom (map_of cg)} \<and>
   set (sso_members (sso w')) =
     {p \<in> set (sso_members (sso w)).
        snd p \<notin> DisplayName ` snd ` set xs - dom (map_of cg)}"
proof (induction xs arbitrary: w)
  case Nil
  then show ?case by simp
next
  case (Cons x xs)
  obtain k g where x: "x = (k, g)" by (cases x)
  show ?case
  proof (cases "DisplayName g \<in> dom (map_of cg)")
    case True
    with Cons.prems have "SyncGroups_cleanup (reconciler T) cg xs w = (None, w')"
      by (auto simp: x)
    from Cons.IH [OF this] True show ?thesis by (auto simp: x)
  next
    case False
    then have n: "map_of cg (DisplayName g) = None" by (simp add: domIff)
    with Cons.prems have
      "SyncGroups_cleanup (reconciler T) cg xs (after w [(CallDeleteGroup g, None)]) = (None, w')"
      by (auto simp: x target_calls split: option.splits)
    from Cons.IH [OF this] False show ?thesis
      by (auto simp: x simp del: effect.simps)
  qed
qed

lemma snapshot_keyed: "keyed_by_name (snapshot w)"
  by (auto simp: keyed_by_name_def snapshot_def dest!: map_of_SomeD)

lemma snapshot_names:
  "dom (map_of (snapshot w)) = DisplayName ` set (sso_groups (sso w))"
  "DisplayName ` snd ` set (snapshot w) = DisplayName ` set (sso_groups (sso w))"
  by (force simp: snapshot_def dom_map_of_conv_image_fst)+

lemma SyncGroups_success:
  assumes "SyncGroups (reconciler T) w = (Return None, w')"
  obtains cg w3 where
    "SyncGroups_groups (reconciler T) (snapshot w) (google_groups w) [] (groups_start w) =
       (None, cg, w3)"
    "SyncGroups_cleanup (reconciler T) cg (snapshot w) w3 = (None, w')"
proof -
  from assms have f: "next_fault w = None"
    by (auto simp: SyncGroups_def target_calls split: option.splits)
  let ?w1 = "after w [(CallGetGroups, None)]"
  from assms f have f1: "next_fault ?w1 = None"
    by (auto simp: SyncGroups_def target_calls source_calls split: option.splits)
  obtain r cg w3 where
    g: "SyncGroups_groups (reconciler T) (snapshot w) (google_groups w) [] (groups_start w) =
       (r, cg, w3)"
    by (cases "SyncGroups_groups (reconciler T) (snapshot w) (google_groups w) [] (groups_start w)")
  from groups_not_nil [of "reconciler T" "snapshot w" "google_groups w" "[]" "groups_start w"] g
  have n: "r \<noteq> Some (Return None)" by auto
  with assms f f1 g have r: "r = None"
    by (cases r) (auto simp: SyncGroups_def target_calls source_calls snapshot_def
          groups_start_def after_after)
  obtain r4 w4 where c: "SyncGroups_cleanup (reconciler T) cg (snapshot w) w3 = (r4, w4)"
    by (cases "SyncGroups_cleanup (reconciler T) cg (snapshot w) w3")
  from cleanup_not_nil [of "reconciler T" cg "snapshot w" w3] c
  have "r4 \<noteq> Some (Return None)" by auto
  with assms f f1 g r c have "r4 = None" "w4 = w'"
    by (cases r4; auto simp: SyncGroups_def target_calls source_calls snapshot_def
          groups_start_def after_after)+
  with that g r c show thesis by simp
qed

lemma groups_start_fields [simp]:
  "sso (groups_start w) = sso w" "group_members (groups_start w) = group_members w"
  by (simp_all add: groups_start_def)

lemma SyncGroups_membership:
  assumes "SyncGroups (reconciler T) w = (Return None, w')"
    and "\<forall>(k, u)\<in>set T. k = Username u"
    and "(k, u) \<in> set T"
    and "google_groups w = pre @ g # post"
    and "Name g \<notin> Name ` set post"
  shows "(\<exists>G\<in>set (sso_groups (sso w')). DisplayName G = Name g) \<and>
         ((Username u, Name g) \<in> set (sso_members (sso w'))) =
         (Username u \<in> Email ` set (group_members w g))"
proof -
  from assms(1) obtain cg w3 where
    g: "SyncGroups_groups (reconciler T) (snapshot w) (google_groups w) [] (groups_start w) =
       (None, cg, w3)" and
    c: "SyncGroups_cleanup (reconciler T) cg (snapshot w) w3 = (None, w')"
    by (rule SyncGroups_success)
  note m = groups_model [OF g snapshot_keyed]
  from m assms(4) have cg: "Name g \<in> dom (map_of cg)" by simp
  from groups_members [OF g [unfolded assms(4)] snapshot_keyed assms(5,2,3)]
  have 3: "((Username u, Name g) \<in> set (sso_members (sso w3))) =
         (Username u \<in> Email ` set (group_members w g))"
    by simp
  have "\<exists>G\<in>set (sso_groups (sso w3)). DisplayName G = Name g"
  proof (cases "Name g \<in> dom (map_of (snapshot w))")
    case True
    with m show ?thesis by (auto simp: snapshot_names)
  next
    case False
    with m assms(4) have "NewGroup (Name g) \<in> set (sso_groups (sso w3))" by auto
    then show ?thesis by (rule bexI [rotated]) simp
  qed
  then obtain X where X: "X \<in> set (sso_groups (sso w3))" "DisplayName X = Name g" by blast
  define D where "D = DisplayName ` snd ` set (snapshot w) - dom (map_of cg)"
  from cg have n: "Name g \<notin> D" by (simp add: D_def)
  from cleanup_model [OF c] have
    gs: "set (sso_groups (sso w')) = {X \<in> set (sso_groups (sso w3)). DisplayName X \<notin> D}" and
    ms: "set (sso_members (sso w')) = {p \<in> set (sso_members (sso w3)). snd p \<notin> D}"
    unfolding D_def by blast+
  from gs X n have "X \<in> set (sso_groups (sso w'))" by simp
  with X(2) have "\<exists>G\<in>set (sso_groups (sso w')). DisplayName G = Name g" by blast
  moreover from ms n 3
  have "((Username u, Name g) \<in> set (sso_members (sso w'))) =
         (Username u \<in> Email ` set (group_members w g))"
    by simp
  ultimately show ?thesis by blast
qed

lemma reaches_by_refl: "reaches_by P w w"
  by (auto simp: reaches_by_def intro: exI [of _ "[]"])

lemma reaches_by_intro: "\<forall>ev\<in>set evs. P (fst ev) \<Longrightarrow> reaches_by P w (after w evs)"
  by (auto simp: reaches_by_def)

lemma reaches_by_dest:
  "reaches_by P (after w evs) w' \<Longrightarrow> \<forall>ev\<in>set evs. P (fst ev) \<Longrightarrow> reaches_by P w w'"
  by (fastforce simp: reaches_by_def after_after)

lemma reaches_by_trans: "reaches_by P w w1 \<Longrightarrow> reaches_by P w1 w2 \<Longrightarrow> reaches_by P w w2"
  by (fastforce simp: reaches_by_def after_after)

lemma reaches_by_mono: "reaches_by P w w' \<Longrightarrow> (\<And>c. P c \<Longrightarrow> Q c) \<Longrightarrow> reaches_by Q w w'"
  by (fastforce simp: reaches_by_def)

lemma reaches_by_fields:
  assumes "reaches_by P w w'"
  shows "group_members w' = group_members w" "google_groups w' = google_groups w"
  using assms by (auto simp: reaches_by_def)

lemma users_calls:
  "SyncGroups_users (reconciler T) grp ml xs w = (r, w') \<Longrightarrow>
   reaches_by (membership_call grp (dom (map_of ml))) w w'"
proof (induction xs arbitrary: w)
  case Nil
  then show ?case by (simp add: reaches_by_refl)
next
  case (Cons x xs)
  obtain k u where x: "x = (k, u)" by (cases x)
  from Cons show ?case unfolding x
    by (auto simp: target_calls after_after domIff
          split: sum.splits option.splits if_splits
          dest!: Cons.IH reaches_by_dest intro!: reaches_by_intro)
qed


lemma group_loop_call_mono:
  "group_loop_call gm gs c \<Longrightarrow> set gs \<subseteq> set gs' \<Longrightarrow> group_loop_call gm gs' c"
  by (cases c) auto

lemma membership_call_group:
  "membership_call grp names c \<Longrightarrow> DisplayName grp = Name g \<Longrightarrow>
   names \<subseteq> Email ` set (gm g) \<Longrightarrow> g \<in> set gs \<Longrightarrow> group_loop_call gm gs c"
  by (cases c) auto

lemma correlate_calls:
  "SyncGroups_correlate (reconciler T) ag g cg w = (x, w1) \<Longrightarrow>
   reaches_by (group_loop_call gm (g # gs)) w w1"
  by (auto simp: SyncGroups_correlate_def target_calls reaches_by_refl
        split: option.splits intro!: reaches_by_intro)

lemma groups_calls:
  "SyncGroups_groups (reconciler T) ag gs cg w = (r, cg', w') \<Longrightarrow> keyed_by_name ag \<Longrightarrow>
   reaches_by (group_loop_call (group_members w) gs) w w'"
proof (induction gs arbitrary: cg w)
  case Nil
  then show ?case by (simp add: reaches_by_refl)
next
  case (Cons g gs)
  let ?P = "group_loop_call (group_members w) (g # gs)"
  obtain x wc where c: "SyncGroups_correlate (reconciler T) ag g cg w = (x, wc)"
    by (cases "SyncGroups_correlate (reconciler T) ag g cg w")
  note 1 = correlate_calls [OF c, of "group_members w" gs]
  from 1 have gm: "group_members wc = group_members w" by (rule reaches_by_fields)
  show ?case
  proof (cases x)
    case (Inl r')
    with Cons.prems c 1 show ?thesis by simp
  next
    case (Inr p)
    obtain cgc grp where p: "p = (cgc, grp)" by (cases p)
    from correlate_model(1) [OF c [unfolded Inr p] Cons.prems(2)]
    have n: "DisplayName grp = Name g" .
    show ?thesis
    proof (cases "next_fault wc")
      case (Some e)
      with Cons.prems c Inr p have "w' = after wc [(CallGetGroupMembers g, Some e)]"
        by (simp add: source_calls)
      then have "reaches_by ?P wc w'" by (auto intro!: reaches_by_intro)
      with 1 show ?thesis by (rule reaches_by_trans)
    next
      case None
      let ?w2 = "after wc [(CallGetGroupMembers g, None)]"
      let ?ml = "memberList_of T (group_members w g) []"
      have 2: "reaches_by ?P wc ?w2" by (auto intro!: reaches_by_intro)
      obtain r3 w3 where u: "SyncGroups_users (reconciler T) grp ?ml T ?w2 = (r3, w3)"
        by (cases "SyncGroups_users (reconciler T) grp ?ml T ?w2")
      from users_calls [OF u] have 3: "reaches_by ?P ?w2 w3"
        by (rule reaches_by_mono)
           (auto intro!: membership_call_group [OF _ n] simp: memberList_of_keys)
      note 123 = reaches_by_trans [OF reaches_by_trans [OF 1 2] 3]
      show ?thesis
      proof (cases r3)
        case (Some r')
        with Cons.prems c Inr p None u gm 123 show ?thesis by (simp add: source_calls)
      next
        case r3: None
        with Cons.prems c Inr p None u gm
        have rest: "SyncGroups_groups (reconciler T) ag gs cgc w3 = (r, cg', w')"
          by (simp add: source_calls)
        from 123 have gm3: "group_members w3 = group_members w" by (rule reaches_by_fields)
        from Cons.IH [OF rest Cons.prems(2)] have "reaches_by ?P w3 w'"
          unfolding gm3 by (rule reaches_by_mono) (auto elim: group_loop_call_mono)
        with 123 show ?thesis by (rule reaches_by_trans)
      qed
    qed
  qed
qed

lemma cleanup_calls:
  "SyncGroups_cleanup (reconciler T) cg xs w = (r, w') \<Longrightarrow>
   reaches_by (\<lambda>c. \<exists>G. c = CallDeleteGroup G) w w'"
proof (induction xs arbitrary: w)
  case Nil
  then show ?case by (simp add: reaches_by_refl)
next
  case (Cons x xs)
  obtain k g where x: "x = (k, g)" by (cases x)
  from Cons show ?case unfolding x
    by (auto simp: target_calls after_after
          split: sum.splits option.splits if_splits
          dest!: Cons.IH reaches_by_dest intro!: reaches_by_intro)
qed

lemma added_after [simp]: "added w (after w evs) = evs"
  by (simp add: added_def)

lemma reaches_by_added:
  assumes "reaches_by P w w'"
  shows "w' = after w (added w w')" "\<forall>ev\<in>set (added w w'). P (fst ev)"
  using assms by (auto simp: reaches_by_def)

lemma SyncGroups_adds:
  assumes "SyncGroups (reconciler T) w = (r, w')"
  shows "reaches_by (\<lambda>c. \<forall>u G. c = CallAddUserToGroup u G \<longrightarrow>
           (\<exists>g\<in>set (google_groups w).
              Name g = DisplayName G \<and> Username u \<in> Email ` set (group_members w g))) w w'"
    (is "reaches_by ?P w w'")
proof (cases "next_fault w")
  case (Some e)
  with assms show ?thesis
    by (auto simp: SyncGroups_def target_calls intro!: reaches_by_intro)
next
  case None
  let ?w1 = "after w [(CallGetGroups, None)]"
  show ?thesis
  proof (cases "next_fault ?w1")
    case (Some e)
    with assms None have "w' = after w [(CallGetGroups, None), (CallGetGoogleGroups, Some e)]"
      by (simp add: SyncGroups_def target_calls source_calls after_after)
    then show ?thesis by (auto intro!: reaches_by_intro)
  next
    case f1: None
    have 2: "reaches_by ?P w (groups_start w)"
      unfolding groups_start_def by (auto intro!: reaches_by_intro)
    obtain r3 cg w3 where
      g: "SyncGroups_groups (reconciler T) (snapshot w) (google_groups w) [] (groups_start w) =
            (r3, cg, w3)"
      by (cases "SyncGroups_groups (reconciler T) (snapshot w) (google_groups w) []
            (groups_start w)")
    from groups_calls [OF g snapshot_keyed] have 3: "reaches_by ?P (groups_start w) w3"
      by (rule reaches_by_mono) auto
    note 23 = reaches_by_trans [OF 2 3]
    show ?thesis
    proof (cases r3)
      case (Some r')
      with assms None f1 g 23 show ?thesis
        by (simp add: SyncGroups_def target_calls source_calls snapshot_def groups_start_def
              after_after)
    next
      case r3: None
      obtain r4 w4 where c: "SyncGroups_cleanup (reconciler T) cg (snapshot w) w3 = (r4, w4)"
        by (cases "SyncGroups_cleanup (reconciler T) cg (snapshot w) w3")
      from cleanup_calls [OF c] have 4: "reaches_by ?P w3 w4"
        by (rule reaches_by_mono) auto
      from assms None f1 g r3 c have "w' = w4"
        by (auto simp: SyncGroups_def target_calls source_calls snapshot_def groups_start_def
              after_after split: option.splits)
      with reaches_by_trans [OF 23 4] show ?thesis by simp
    qed
  qed
qed

lemma cleanup_deletes:
  "SyncGroups_cleanup (reconciler T) cg xs w = (None, w') \<Longrightarrow>
   w' = after w (map (\<lambda>G. (CallDeleteGroup G, None))
          (filter (\<lambda>G. DisplayName G \<notin> dom (map_of cg)) (map snd xs)))"
proof (induction xs arbitrary: w)
  case Nil
  then show ?case by simp
next
  case (Cons x xs)
  obtain k g where x: "x = (k, g)" by (cases x)
  from Cons.prems show ?case unfolding x
    by (auto simp: target_calls after_after domIff split: option.splits dest!: Cons.IH)
qed

lemma groups_creates:
  "SyncGroups_groups (reconciler T) ag gs cg w = (None, cg', w') \<Longrightarrow> keyed_by_name ag \<Longrightarrow>
   filter group_create (map fst (added w w')) =
     map (\<lambda>g. CallCreateGroup (NewGroup (Name g))) (filter (\<lambda>g. Name g \<notin> dom (map_of ag)) gs)"
proof (induction gs arbitrary: cg w)
  case Nil
  then show ?case by (simp add: added_def)
next
  case (Cons g gs)
  obtain x wc where c: "SyncGroups_correlate (reconciler T) ag g cg w = (x, wc)"
    by (cases "SyncGroups_correlate (reconciler T) ag g cg w")
  with Cons.prems(1) obtain cgc grp where x: "x = Inr (cgc, grp)"
    by (cases x) auto
  from Cons.prems(1) c x have f: "next_fault wc = None"
    by (auto simp: source_calls split: option.splits)
  let ?w2 = "after wc [(CallGetGroupMembers g, None)]"
  let ?ml = "memberList_of T (group_members wc g) []"
  obtain r3 w3 where u: "SyncGroups_users (reconciler T) grp ?ml T ?w2 = (r3, w3)"
    by (cases "SyncGroups_users (reconciler T) grp ?ml T ?w2")
  from users_not_nil [of "reconciler T" grp ?ml T ?w2] u have "r3 \<noteq> Some (Return None)"
    by auto
  with Cons.prems(1) c x f u have r3: "r3 = None" and
    rest: "SyncGroups_groups (reconciler T) ag gs cgc w3 = (None, cg', w')"
    by (cases r3; auto simp: source_calls)+
  have wc: "wc = after w (if Name g \<in> dom (map_of ag) then []
                else [(CallCreateGroup (NewGroup (Name g)), None)])"
    using c x by (auto simp: SyncGroups_correlate_def target_calls split: option.splits)
  from users_calls [OF u] obtain E where
    E: "w3 = after ?w2 E" "\<forall>ev\<in>set E. membership_call grp (dom (map_of ?ml)) (fst ev)"
    by (auto simp: reaches_by_def)
  have nc: "filter group_create (map fst E) = []"
  proof -
    have "\<not> group_create c" if "membership_call grp (dom (map_of ?ml)) c" for c
      using that by (cases c) auto
    with E(2) show ?thesis by (auto simp: filter_empty_conv)
  qed
  from groups_calls [OF rest Cons.prems(2)] have w': "w' = after w3 (added w3 w')"
    by (rule reaches_by_added)
  have "w' = after w ((if Name g \<in> dom (map_of ag) then []
                else [(CallCreateGroup (NewGroup (Name g)), None)]) @
             [(CallGetGroupMembers g, None)] @ E @ added w3 w')"
    by (subst w', subst E(1), subst wc) (simp only: after_after append_assoc)
  then have "added w w' = (if Name g \<in> dom (map_of ag) then []
                else [(CallCreateGroup (NewGroup (Name g)), None)]) @
             [(CallGetGroupMembers g, None)] @ E @ added w3 w'"
    by (metis added_after)
  with Cons.IH [OF rest Cons.prems(2)] nc show ?case by simp
qed


lemmas concrete_defs3 = concrete_defs2 eng_def eng2_def robert_def sso_robert_def
  world_alias_def world_alias_member_def world_robert_def world_twins_def world_ok_done_def
  world_alias_cleared_def world_robert_added_def world_twins_done_def
  SyncGroups_def SyncGroups_correlate_def SyncUsers_def DoSync_def New_def

lemma world_ok_groups_run:
  "SyncGroups (reconciler [(''alice@x.com'', sso_alice)]) world_ok_synced =
     (Return None, world_ok_done)"
  by (simp add: concrete_defs3)

lemma world_alias_run:
  "SyncGroups (reconciler [(''al'', sso_al)]) world_alias_member = (Return None, world_alias_cleared)"
  by (simp add: concrete_defs3)

lemma world_robert_run:
  "SyncGroups (reconciler [(''bob@x.com'', sso_robert)]) world_robert =
     (Return None, world_robert_added)"
  by (simp add: concrete_defs3)

lemma world_twins_run:
  "SyncGroups (reconciler []) world_twins = (Return None, world_twins_done)"
  by (simp add: concrete_defs3)


text \<open>
  C1, as stated, fails: a principal that the lookup found under a username other than its
  email is in the table, its email is in the member list of the source group, and after a
  successful run it is not a member of the correlated target group.
\<close>

theorem membership_ignores_email:
  "fst (DoSync target_port source_port world_alias) = Return None \<and>
   users (fst (snd (SyncUsers (reconciler []) world_alias))) = [(''al'', sso_al)] \<and>
   eng \<in> set (google_groups world_alias) \<and>
   \<lparr>DisplayName = ''Eng''\<rparr> \<in> set (sso_groups (sso (snd (DoSync target_port source_port world_alias)))) \<and>
   UserEmail sso_al \<in> Email ` set (group_members world_alias eng) \<and>
   (Username sso_al, Name eng) \<notin>
     set (sso_members (sso (snd (DoSync target_port source_port world_alias))))"
  by (simp add: concrete_defs3)


text \<open>
  C1, amended. After a successful run of \<^verbatim>\<open>SyncGroups\<close> with a table keyed by username:
  for every principal of the table and every source group (the last one of its name in the
  source listing), the target has a group of that name, and the principal is a member of it
  exactly when its target username is the email of a member of the source group.
\<close>

theorem membership_follows_username:
  assumes "SyncGroups (reconciler T) w = (Return None, w')"
    and "\<forall>(k, u)\<in>set T. k = Username u"
    and "(k, u) \<in> set T"
    and "google_groups w = pre @ g # post"
    and "Name g \<notin> Name ` set post"
  shows "(\<exists>G\<in>set (sso_groups (sso w')). DisplayName G = Name g) \<and>
         ((Username u, Name g) \<in> set (sso_members (sso w'))) =
         (Username u \<in> Email ` set (group_members w g))"
  using assms by (rule SyncGroups_membership)


theorem membership_follows_username_witness:
  "SyncGroups (reconciler [(''alice@x.com'', sso_alice)]) world_ok_synced =
     (Return None, world_ok_done) \<and>
   ''alice@x.com'' = Username sso_alice \<and>
   (''alice@x.com'', sso_alice) \<in> set [(''alice@x.com'', sso_alice)] \<and>
   google_groups world_ok_synced = [] @ eng # [] \<and>
   Name eng \<notin> Name ` set [] \<and>
   (\<exists>G\<in>set (sso_groups (sso world_ok_done)). DisplayName G = Name eng) \<and>
   ((Username sso_alice, Name eng) \<in> set (sso_members (sso world_ok_done))) =
   (Username sso_alice \<in> Email ` set (group_members world_ok_synced eng)) \<and>
   (Username sso_alice, Name eng) \<in> set (sso_members (sso world_ok_done))"
proof -
  have h: "\<forall>(k, u)\<in>set [(''alice@x.com'', sso_alice)]. k = Username u"
    "(''alice@x.com'', sso_alice) \<in> set [(''alice@x.com'', sso_alice)]"
    "google_groups world_ok_synced = [] @ eng # []"
    "Name eng \<notin> Name ` set []"
    "(Username sso_alice, Name eng) \<in> set (sso_members (sso world_ok_done))"
    by (simp_all add: concrete_defs3)
  have k: "''alice@x.com'' = Username sso_alice" by (simp add: concrete_defs3)
  from membership_follows_username [OF world_ok_groups_run h(1-4)] h(2-5) k world_ok_groups_run
  show ?thesis by blast
qed


text \<open>
  C4. After a successful run of \<^verbatim>\<open>SyncGroups\<close>, a group that the target had at the start
  and whose display name is the name of no source group (so it was never correlated) is
  gone: the target has no group of that display name.
\<close>

theorem uncorrelated_group_is_deleted:
  assumes "SyncGroups (reconciler T) w = (Return None, w')"
    and "G \<in> set (sso_groups (sso w))"
    and "DisplayName G \<notin> Name ` set (google_groups w)"
  shows "DisplayName G \<notin> DisplayName ` set (sso_groups (sso w'))"
proof -
  from assms(1) obtain cg w3 where
    g: "SyncGroups_groups (reconciler T) (snapshot w) (google_groups w) [] (groups_start w) =
       (None, cg, w3)" and
    c: "SyncGroups_cleanup (reconciler T) cg (snapshot w) w3 = (None, w')"
    by (rule SyncGroups_success)
  from groups_model [OF g snapshot_keyed] have cg: "dom (map_of cg) = Name ` set (google_groups w)"
    by simp
  from assms(2) have "DisplayName G \<in> DisplayName ` snd ` set (snapshot w)"
    by (simp add: snapshot_names)
  define D where "D = DisplayName ` snd ` set (snapshot w) - dom (map_of cg)"
  with assms(3) cg \<open>DisplayName G \<in> DisplayName ` snd ` set (snapshot w)\<close>
  have "DisplayName G \<in> D" by simp
  moreover from cleanup_model [OF c]
  have "\<forall>X\<in>set (sso_groups (sso w')). DisplayName X \<notin> D"
    unfolding D_def by blast
  ultimately show ?thesis by (metis imageE)
qed


theorem uncorrelated_group_is_deleted_witness:
  "SyncGroups (reconciler [(''alice@x.com'', sso_alice)]) world_ok_synced =
     (Return None, world_ok_done) \<and>
   \<lparr>DisplayName = ''Temp''\<rparr> \<in> set (sso_groups (sso world_ok_synced)) \<and>
   DisplayName \<lparr>DisplayName = ''Temp''\<rparr> \<notin> Name ` set (google_groups world_ok_synced) \<and>
   DisplayName \<lparr>DisplayName = ''Temp''\<rparr> \<notin> DisplayName ` set (sso_groups (sso world_ok_done))"
proof -
  have h: "\<lparr>DisplayName = ''Temp''\<rparr> \<in> set (sso_groups (sso world_ok_synced))"
    "DisplayName \<lparr>DisplayName = ''Temp''\<rparr> \<notin> Name ` set (google_groups world_ok_synced)"
    by (simp_all add: concrete_defs3)
  from uncorrelated_group_is_deleted [OF world_ok_groups_run h] h world_ok_groups_run show ?thesis by blast
qed


text \<open>
  C9, as stated, fails: a principal whose username differs from its email is added to a
  group when its username is the email of a member of the source group.
\<close>

theorem differing_username_is_added:
  "Username sso_robert \<noteq> UserEmail sso_robert \<and>
   fst (DoSync target_port source_port world_robert) = Return None \<and>
   users (fst (snd (SyncUsers (reconciler []) world_robert))) = [(''bob@x.com'', sso_robert)] \<and>
   (CallAddUserToGroup sso_robert \<lparr>DisplayName = ''Eng''\<rparr>, None) \<in>
     set (trace (snd (DoSync target_port source_port world_robert)))"
  by (simp add: concrete_defs3)


text \<open>
  C9, amended. The decision is taken on the username. In any run of \<^verbatim>\<open>SyncGroups\<close>, every
  \<^verbatim>\<open>AddUserToGroup\<close> call is for a principal whose username is the email of a member of a
  source group with the display name of the target group. And after a successful run with a
  table keyed by username, a principal of the table whose username is the email of no
  member of a source group (the last of its name) is not a member of the target group of
  that name, whatever its own email is.
\<close>

theorem add_decided_by_username:
  "(SyncGroups (reconciler T) w = (r, w') \<longrightarrow>
      (\<forall>u G x. (CallAddUserToGroup u G, x) \<in> set (added w w') \<longrightarrow>
         (\<exists>g\<in>set (google_groups w).
            Name g = DisplayName G \<and> Username u \<in> Email ` set (group_members w g)))) \<and>
   (SyncGroups (reconciler T) w = (Return None, w') \<longrightarrow>
      (\<forall>(k, u)\<in>set T. k = Username u) \<longrightarrow> (k, u) \<in> set T \<longrightarrow>
      google_groups w = pre @ g # post \<longrightarrow> Name g \<notin> Name ` set post \<longrightarrow>
      Username u \<notin> Email ` set (group_members w g) \<longrightarrow>
      (Username u, Name g) \<notin> set (sso_members (sso w')))"
proof (intro conjI impI allI)
  fix u G x
  assume "SyncGroups (reconciler T) w = (r, w')"
    and "(CallAddUserToGroup u G, x) \<in> set (added w w')"
  with reaches_by_added(2) [OF SyncGroups_adds]
  show "\<exists>g\<in>set (google_groups w).
            Name g = DisplayName G \<and> Username u \<in> Email ` set (group_members w g)"
    by fastforce
next
  assume "SyncGroups (reconciler T) w = (Return None, w')"
    "\<forall>(k, u)\<in>set T. k = Username u" "(k, u) \<in> set T"
    "google_groups w = pre @ g # post" "Name g \<notin> Name ` set post"
    "Username u \<notin> Email ` set (group_members w g)"
  with SyncGroups_membership [of T w w' k u pre g post]
  show "(Username u, Name g) \<notin> set (sso_members (sso w'))" by simp
qed


theorem add_decided_by_username_witness:
  "SyncGroups (reconciler [(''bob@x.com'', sso_robert)]) world_robert =
     (Return None, world_robert_added) \<and>
   (CallAddUserToGroup sso_robert \<lparr>DisplayName = ''Eng''\<rparr>, None) \<in>
     set (added world_robert world_robert_added) \<and>
   (\<exists>g\<in>set (google_groups world_robert).
      Name g = DisplayName \<lparr>DisplayName = ''Eng''\<rparr> \<and>
      Username sso_robert \<in> Email ` set (group_members world_robert g)) \<and>
   SyncGroups (reconciler [(''al'', sso_al)]) world_alias_member =
     (Return None, world_alias_cleared) \<and>
   ''al'' = Username sso_al \<and>
   (''al'', sso_al) \<in> set [(''al'', sso_al)] \<and>
   google_groups world_alias_member = [] @ eng # [] \<and>
   Name eng \<notin> Name ` set [] \<and>
   Username sso_al \<notin> Email ` set (group_members world_alias_member eng) \<and>
   (Username sso_al, Name eng) \<in> set (sso_members (sso world_alias_member)) \<and>
   (Username sso_al, Name eng) \<notin> set (sso_members (sso world_alias_cleared))"
proof -
  have a: "(CallAddUserToGroup sso_robert \<lparr>DisplayName = ''Eng''\<rparr>, None) \<in>
     set (added world_robert world_robert_added)"
    by (simp add: added_def concrete_defs3)
  have h: "\<forall>(k, u)\<in>set [(''al'', sso_al)]. k = Username u"
    "(''al'', sso_al) \<in> set [(''al'', sso_al)]"
    "google_groups world_alias_member = [] @ eng # []"
    "Name eng \<notin> Name ` set []"
    "Username sso_al \<notin> Email ` set (group_members world_alias_member eng)"
    "(Username sso_al, Name eng) \<in> set (sso_members (sso world_alias_member))"
    by (simp_all add: concrete_defs3)
  from add_decided_by_username [of "[(''bob@x.com'', sso_robert)]" world_robert "Return None" world_robert_added]
    world_robert_run a
  have 1: "\<exists>g\<in>set (google_groups world_robert).
      Name g = DisplayName \<lparr>DisplayName = ''Eng''\<rparr> \<and>
      Username sso_robert \<in> Email ` set (group_members world_robert g)"
    by blast
  from add_decided_by_username [of "[(''al'', sso_al)]" world_alias_member "Return None" world_alias_cleared
      "''al''" sso_al "[]" eng "[]"] world_alias_run h
  have 2: "(Username sso_al, Name eng) \<notin> set (sso_members (sso world_alias_cleared))"
    by blast
  have k: "''al'' = Username sso_al" by (simp add: concrete_defs3)
  from 1 2 a h(2-6) k world_robert_run world_alias_run show ?thesis by blast
qed


text \<open>
  C10. In a successful run of \<^verbatim>\<open>SyncGroups\<close> the calls are: \<^verbatim>\<open>GetGroups\<close> once, first;
  the fetch of the source groups; the calls \<open>E\<close> of the loop, none of which fetches the
  target groups again or deletes a group; then one \<^verbatim>\<open>DeleteGroup\<close> for each group of the
  snapshot whose display name is no source group's name, and for no other group. The
  creations in \<open>E\<close> are one per source group whose name is absent from the snapshot, in
  source order, also when an equally named group was created earlier in the run; and no
  group created in the run is deleted in it.
\<close>

theorem snapshot_is_never_refreshed:
  assumes "SyncGroups (reconciler T) w = (Return None, w')"
  shows "\<exists>E. trace w' = trace w @
             (CallGetGroups, None) # (CallGetGoogleGroups, None) # E @
             map (\<lambda>G. (CallDeleteGroup G, None))
               (filter (\<lambda>G. DisplayName G \<notin> Name ` set (google_groups w))
                  (remdups (sso_groups (sso w)))) \<and>
           (\<forall>ev\<in>set E. \<not> snapshot_or_delete (fst ev)) \<and>
           filter group_create (map fst E) =
             map (\<lambda>g. CallCreateGroup (NewGroup (Name g)))
               (filter (\<lambda>g. Name g \<notin> DisplayName ` set (sso_groups (sso w))) (google_groups w)) \<and>
           (\<forall>G x y. (CallCreateGroup G, x) \<in> set E \<longrightarrow> (CallDeleteGroup G, y) \<notin> set (added w w'))"
proof -
  from assms obtain cg w3 where
    g: "SyncGroups_groups (reconciler T) (snapshot w) (google_groups w) [] (groups_start w) =
       (None, cg, w3)" and
    c: "SyncGroups_cleanup (reconciler T) cg (snapshot w) w3 = (None, w')"
    by (rule SyncGroups_success)
  define E where "E = added (groups_start w) w3"
  note gc = groups_calls [OF g snapshot_keyed]
  from reaches_by_added [OF gc] have w3: "w3 = after (groups_start w) E"
    and E: "\<forall>ev\<in>set E. group_loop_call (group_members (groups_start w)) (google_groups w) (fst ev)"
    by (simp_all add: E_def)
  have 1: "\<forall>ev\<in>set E. \<not> snapshot_or_delete (fst ev)"
  proof
    fix ev assume "ev \<in> set E"
    with E have "group_loop_call (group_members (groups_start w)) (google_groups w) (fst ev)"
      by blast
    then show "\<not> snapshot_or_delete (fst ev)" by (cases "fst ev") auto
  qed
  from groups_model [OF g snapshot_keyed] have cg: "dom (map_of cg) = Name ` set (google_groups w)"
    by simp
  have sn: "map snd (snapshot w) = remdups (sso_groups (sso w))"
    by (simp add: snapshot_def comp_def)
  from cleanup_deletes [OF c] have
    "w' = after w ((CallGetGroups, None) # (CallGetGoogleGroups, None) # E @
             map (\<lambda>G. (CallDeleteGroup G, None))
               (filter (\<lambda>G. DisplayName G \<notin> Name ` set (google_groups w))
                  (remdups (sso_groups (sso w)))))"
    by (simp add: w3 groups_start_def after_after cg sn)
  then have 2: "trace w' = trace w @
             (CallGetGroups, None) # (CallGetGoogleGroups, None) # E @
             map (\<lambda>G. (CallDeleteGroup G, None))
               (filter (\<lambda>G. DisplayName G \<notin> Name ` set (google_groups w))
                  (remdups (sso_groups (sso w))))"
    by simp
  from groups_creates [OF g snapshot_keyed]
  have 3: "filter group_create (map fst E) =
             map (\<lambda>g. CallCreateGroup (NewGroup (Name g)))
               (filter (\<lambda>g. Name g \<notin> DisplayName ` set (sso_groups (sso w))) (google_groups w))"
    by (simp add: E_def snapshot_names)
  have 4: "(CallDeleteGroup G, y) \<notin> set (added w w')" if "(CallCreateGroup G, x) \<in> set E"
    for G x y
  proof
    assume d: "(CallDeleteGroup G, y) \<in> set (added w w')"
    from that E have "group_loop_call (group_members (groups_start w)) (google_groups w)
        (CallCreateGroup G)"
      by fastforce
    then have n: "DisplayName G \<in> Name ` set (google_groups w)" by auto
    from 2 have "added w w' = (CallGetGroups, None) # (CallGetGoogleGroups, None) # E @
             map (\<lambda>G. (CallDeleteGroup G, None))
               (filter (\<lambda>G. DisplayName G \<notin> Name ` set (google_groups w))
                  (remdups (sso_groups (sso w))))"
      by (simp add: added_def)
    with d have "(CallDeleteGroup G, y) \<in> set E \<or> DisplayName G \<notin> Name ` set (google_groups w)"
      by auto
    with n 1 show False by fastforce
  qed
  from 1 2 3 4 show ?thesis by blast
qed

theorem snapshot_is_never_refreshed_witness:
  "SyncGroups (reconciler []) world_twins = (Return None, world_twins_done) \<and>
   (\<exists>E. trace world_twins_done = trace world_twins @
             (CallGetGroups, None) # (CallGetGoogleGroups, None) # E @
             map (\<lambda>G. (CallDeleteGroup G, None))
               (filter (\<lambda>G. DisplayName G \<notin> Name ` set (google_groups world_twins))
                  (remdups (sso_groups (sso world_twins)))) \<and>
           (\<forall>ev\<in>set E. \<not> snapshot_or_delete (fst ev)) \<and>
           filter group_create (map fst E) =
             map (\<lambda>g. CallCreateGroup (NewGroup (Name g)))
               (filter (\<lambda>g. Name g \<notin> DisplayName ` set (sso_groups (sso world_twins)))
                  (google_groups world_twins)) \<and>
           (\<forall>G x y. (CallCreateGroup G, x) \<in> set E \<longrightarrow>
              (CallDeleteGroup G, y) \<notin> set (added world_twins world_twins_done))) \<and>
   map (\<lambda>g. CallCreateGroup (NewGroup (Name g)))
     (filter (\<lambda>g. Name g \<notin> DisplayName ` set (sso_groups (sso world_twins)))
        (google_groups world_twins)) =
     [CallCreateGroup \<lparr>DisplayName = ''Eng''\<rparr>, CallCreateGroup \<lparr>DisplayName = ''Eng''\<rparr>]"
proof -
  have "map (\<lambda>g. CallCreateGroup (NewGroup (Name g)))
     (filter (\<lambda>g. Name g \<notin> DisplayName ` set (sso_groups (sso world_twins)))
        (google_groups world_twins)) =
     [CallCreateGroup \<lparr>DisplayName = ''Eng''\<rparr>, CallCreateGroup \<lparr>DisplayName = ''Eng''\<rparr>]"
    by (simp add: concrete_defs3)
  with snapshot_is_never_refreshed [OF world_twins_run] world_twins_run show ?thesis by blast
qed

end
